theory Spec2Isabelle
  imports Complex_Main "HOL-Library.Monad_Syntax" "HOL-Library.Multiset"
begin

section \<open>The splash scheduler of graphlab (splash\_scheduler.hpp)\<close>

text \<open>
  The scheduler is embedded as state-passing functions over a record of its data members.
  Every function returns an \<open>option\<close>: \<open>None\<close> is a failed \<^verbatim>\<open>assert\<close> or an
  out-of-range index of a \<^verbatim>\<open>std::vector\<close> (undefined behaviour in C++), \<open>Some\<close> carries
  the return value and the state after the call.  The section between a \<^verbatim>\<open>lock()\<close> and its
  \<^verbatim>\<open>unlock()\<close> is one step of the model.  Sizes and vertex identifiers are natural numbers:
  vertex identifiers are 32-bit and the sizes are bounded by the number of edges and of
  workers, so no operation of the file comes near the wrap-around of \<^verbatim>\<open>size_t\<close>.
\<close>

subsection \<open>Collaborators that are not part of the file\<close>

type_synonym vertex_id = nat
type_synonym edge_id = nat

text \<open>A function pointer; \<open>0\<close> is \<^verbatim>\<open>NULL\<close>.\<close>
type_synonym update_function = nat

text \<open>\<^verbatim>\<open>update_task\<close>: the vertex and the update function.\<close>
type_synonym update_task = "vertex_id \<times> update_function"

text \<open>
  The graph is a parameter: the four queries the scheduler makes of it.
\<close>
record graph =
  num_vertices :: nat
  in_edge_ids :: "vertex_id \<Rightarrow> edge_id list"
  out_edge_ids :: "vertex_id \<Rightarrow> edge_id list"
  source :: "edge_id \<Rightarrow> vertex_id"

text \<open>
  \<^verbatim>\<open>std::random_shuffle\<close> is a parameter as well: \<open>sh k xs\<close> is the order that the
  \<open>k\<close>-th shuffle of a run gives to \<open>xs\<close>.  The scheduler state counts the shuffles.
\<close>
type_synonym shuffle = "nat \<Rightarrow> edge_id list \<Rightarrow> edge_id list"

definition vec_at :: "'a list \<Rightarrow> nat \<Rightarrow> 'a option" where
  "vec_at xs i = (if i < length xs then Some (xs ! i) else None)"

text \<open>
  Modelled from the spec: \<^verbatim>\<open>mutable_queue<size_t, double>\<close> (graphlab/util/mutable\_queue.hpp
  is not among the sources).  A max-priority queue keyed by vertex: \<open>insert_max\<close> inserts an
  absent key and promotes a present one to the larger priority, \<open>remove\<close> reports whether the
  key was present, \<open>top\<close> is an entry of greatest priority (the earliest inserted among equals).
  Priorities are only compared, with each other and with 1, so a \<^verbatim>\<open>double\<close> is a real number here.
\<close>
type_synonym pqueue = "(vertex_id \<times> real) list"

definition pq_contains :: "pqueue \<Rightarrow> vertex_id \<Rightarrow> bool" where
  "pq_contains q v = (v \<in> set (map fst q))"

definition pq_insert_max :: "pqueue \<Rightarrow> vertex_id \<Rightarrow> real \<Rightarrow> pqueue" where
  "pq_insert_max q v p =
     (if pq_contains q v then map (\<lambda>(k, old). if k = v then (k, max old p) else (k, old)) q
      else q @ [(v, p)])"

definition pq_remove :: "pqueue \<Rightarrow> vertex_id \<Rightarrow> bool \<times> pqueue" where
  "pq_remove q v = (pq_contains q v, filter (\<lambda>kp. fst kp \<noteq> v) q)"

definition pq_empty :: "pqueue \<Rightarrow> bool" where
  "pq_empty q = (q = [])"

fun pq_max :: "vertex_id \<times> real \<Rightarrow> pqueue \<Rightarrow> vertex_id \<times> real" where
  "pq_max best [] = best"
| "pq_max best (kp # q) = pq_max (if snd best < snd kp then kp else best) q"

definition pq_top :: "pqueue \<Rightarrow> vertex_id \<times> real" where
  "pq_top q = pq_max (hd q) (tl q)"

definition pq_pop :: "pqueue \<Rightarrow> pqueue" where
  "pq_pop q = filter (\<lambda>kp. fst kp \<noteq> fst (pq_top q)) q"

text \<open>
  Modelled from the spec: \<^verbatim>\<open>dense_bitset\<close> (graphlab/util/dense\_bitset.hpp is not among the
  sources).  \<open>set_bit\<close> and \<open>clear_bit\<close> are atomic and return the prior value of the bit.
\<close>
definition bitset_set_bit :: "bool list \<Rightarrow> nat \<Rightarrow> (bool \<times> bool list) option" where
  "bitset_set_bit bs v = (if v < length bs then Some (bs ! v, bs[v := True]) else None)"

definition bitset_clear_bit :: "bool list \<Rightarrow> nat \<Rightarrow> (bool \<times> bool list) option" where
  "bitset_clear_bit bs v = (if v < length bs then Some (bs ! v, bs[v := False]) else None)"

text \<open>
  Modelled from the spec: \<^verbatim>\<open>shared_termination\<close> (graphlab/util/shared\_termination.hpp is not
  among the sources).  The model keeps the calls that the scheduler makes on the terminator, in
  order; what \<^verbatim>\<open>end_sleep_critical_section\<close> answers depends on the other workers and is an
  input of \<open>get_next_task\<close>.
\<close>
datatype terminator_call =
  Reset | NewJob nat | BeginSleep nat | CancelSleep nat | EndSleep nat

text \<open>The monitor of the base class \<^verbatim>\<open>ischeduler\<close>: the events it is told, when it is not \<^verbatim>\<open>NULL\<close>.\<close>
datatype monitor_event =
  TaskAdded update_task real | TaskScheduled update_task real

definition tell :: "monitor_event list option \<Rightarrow> monitor_event \<Rightarrow> monitor_event list option" where
  "tell m e = (case m of None \<Rightarrow> None | Some evs \<Rightarrow> Some (evs @ [e]))"

subsection \<open>Data members\<close>

definition queue_multiple :: nat where
  "queue_multiple = 5"

text \<open>
  \<open>lastqid\<close> is the \<^verbatim>\<open>static size_t lastqid[128]\<close> of \<open>get_top\<close>.  It is a function-local
  static: one array for the whole process, zero when the process starts, written only by
  \<open>get_top\<close> and shared by every scheduler that the process constructs.  The record carries it
  along with the data members; the constructor does not touch it.  \<open>rng\<close> counts the calls of
  \<^verbatim>\<open>std::random_shuffle\<close>.  The locks and the callbacks carry no data.
\<close>
record scheduler =
  ncpus :: nat
  splash_size :: nat
  update_fun :: update_function
  pqueues :: "pqueue list"
  vmap :: "nat list"
  splashes :: "vertex_id list list"
  splash_index :: "nat list"
  active_set :: "bool list"
  terminator :: "terminator_call list"
  aborted :: bool
  monitor :: "monitor_event list option"
  lastqid :: "nat list"
  rng :: nat

datatype sched_status = NEWTASK update_task | WAITING | COMPLETE

subsection \<open>Construction and submission\<close>

text \<open>
  The constructor.  With no queue at all, \<^verbatim>\<open>i % pqueues.size()\<close> divides by zero for the first
  vertex.  \<open>statics\<close> is what the array of \<open>get_top\<close> holds when the scheduler is constructed:
  zeros in the first scheduler of a process, and what the calls of \<open>get_top\<close> on earlier
  schedulers have left otherwise.
\<close>
definition splash_scheduler :: "graph \<Rightarrow> nat \<Rightarrow> nat list \<Rightarrow> scheduler option" where
  "splash_scheduler g n statics =
     (if n * queue_multiple = 0 \<and> 0 < num_vertices g then None
      else Some \<lparr> ncpus = n, splash_size = 100, update_fun = 0,
        pqueues = replicate (n * queue_multiple) [],
        vmap = map (\<lambda>i. i mod (n * queue_multiple)) [0 ..< num_vertices g],
        splashes = replicate n [], splash_index = replicate n 0,
        active_set = replicate (num_vertices g) False,
        terminator = [], aborted = False, monitor = None,
        lastqid = statics, rng = 0 \<rparr>)"

definition add_task :: "graph \<Rightarrow> update_task \<Rightarrow> real \<Rightarrow> scheduler \<Rightarrow> scheduler option" where
  "add_task g task priority s =
     (if snd task \<noteq> update_fun s then None
      else if \<not> fst task < num_vertices g then None
      else do {
        let vertex = fst task;
        pqueue_id \<leftarrow> vec_at (vmap s) vertex;
        (already_present, bits) \<leftarrow> bitset_set_bit (active_set s) vertex;
        let s = s\<lparr>active_set := bits\<rparr>;
        q \<leftarrow> vec_at (pqueues s) pqueue_id;
        let s = (if \<not> already_present \<or> pq_contains q vertex
                 then s\<lparr>pqueues := (pqueues s)[pqueue_id := pq_insert_max q vertex priority],
                        monitor := tell (monitor s) (TaskAdded task priority)\<rparr>
                 else s);
        let cpuid = pqueue_id div queue_multiple;
        if \<not> cpuid < ncpus s then None
        else Some (s\<lparr>terminator := terminator s @ [NewJob cpuid]\<rparr>)
      })"

fun add_tasks :: "graph \<Rightarrow> vertex_id list \<Rightarrow> update_function \<Rightarrow> real \<Rightarrow> scheduler \<Rightarrow> scheduler option" where
  "add_tasks g [] func priority s = Some s"
| "add_tasks g (vertex # vertices) func priority s =
     do { s \<leftarrow> add_task g (vertex, func) priority s; add_tasks g vertices func priority s }"

definition add_task_to_all :: "graph \<Rightarrow> update_function \<Rightarrow> real \<Rightarrow> scheduler \<Rightarrow> scheduler option" where
  "add_task_to_all g func priority s =
     add_tasks g [0 ..< num_vertices g] func priority (s\<lparr>update_fun := func\<rparr>)"

definition set_update_function :: "update_function \<Rightarrow> scheduler \<Rightarrow> scheduler" where
  "set_update_function func s = s\<lparr>update_fun := func\<rparr>"

definition set_splash_size :: "nat \<Rightarrow> scheduler \<Rightarrow> scheduler" where
  "set_splash_size sz s = s\<lparr>splash_size := sz\<rparr>"

definition abort :: "scheduler \<Rightarrow> scheduler" where
  "abort s = s\<lparr>aborted := True\<rparr>"

fun restart_loop :: "nat list \<Rightarrow> scheduler \<Rightarrow> scheduler option" where
  "restart_loop [] s = Some s"
| "restart_loop (i # is) s =
     (if i < length (splashes s) \<and> i < length (splash_index s)
      then restart_loop is (s\<lparr>splashes := (splashes s)[i := []],
                               splash_index := (splash_index s)[i := 0]\<rparr>)
      else None)"

definition restart :: "scheduler \<Rightarrow> scheduler option" where
  "restart s = do { s \<leftarrow> restart_loop [0 ..< length (splashes s)] s; Some (s\<lparr>aborted := False\<rparr>) }"

subsection \<open>Building a splash\<close>

text \<open>
  \<open>get_top\<close>: the loop over \<open>i = 0, ..., queue_multiple - 1\<close> is a recursion over that range.
  The result is the root and its priority, or \<open>None\<close> for \<^verbatim>\<open>return false\<close>.
\<close>
fun get_top_loop :: "nat list \<Rightarrow> nat \<Rightarrow> scheduler \<Rightarrow> ((vertex_id \<times> real) option \<times> scheduler) option" where
  "get_top_loop [] cpuid s =
     (if cpuid < length (lastqid s) then Some (None, s\<lparr>lastqid := (lastqid s)[cpuid := 0]\<rparr>)
      else None)"
| "get_top_loop (i # is) cpuid s = do {
     lastq \<leftarrow> vec_at (lastqid s) cpuid;
     let j = (i + lastq) mod queue_multiple;
     let index = cpuid * queue_multiple + j;
     q \<leftarrow> vec_at (pqueues s) index;
     if \<not> pq_empty q
     then Some (Some (pq_top q), s\<lparr>pqueues := (pqueues s)[index := pq_pop q],
                                    lastqid := (lastqid s)[cpuid := j + 1]\<rparr>)
     else get_top_loop is cpuid s
   }"

definition get_top :: "nat \<Rightarrow> scheduler \<Rightarrow> ((vertex_id \<times> real) option \<times> scheduler) option" where
  "get_top cpuid s = get_top_loop [0 ..< queue_multiple] cpuid s"

definition work :: "graph \<Rightarrow> vertex_id \<Rightarrow> nat" where
  "work g v = length (in_edge_ids g v) + length (out_edge_ids g v)"

text \<open>The first \<^verbatim>\<open>foreach\<close>: every in-neighbour of the root is pushed and marked.\<close>
fun seed_neighbors :: "graph \<Rightarrow> edge_id list \<Rightarrow> vertex_id set \<Rightarrow> vertex_id list \<Rightarrow> vertex_id set \<times> vertex_id list" where
  "seed_neighbors g [] visited bfs_queue = (visited, bfs_queue)"
| "seed_neighbors g (ineid # eids) visited bfs_queue =
     (let neighbor = source g ineid
      in seed_neighbors g eids (insert neighbor visited) (bfs_queue @ [neighbor]))"

text \<open>The \<^verbatim>\<open>foreach\<close> of the loop: only the in-neighbours not yet visited are pushed.\<close>
fun add_neighbors :: "graph \<Rightarrow> edge_id list \<Rightarrow> vertex_id set \<Rightarrow> vertex_id list \<Rightarrow> vertex_id set \<times> vertex_id list" where
  "add_neighbors g [] visited bfs_queue = (visited, bfs_queue)"
| "add_neighbors g (eid # eids) visited bfs_queue =
     (let neighbor = source g eid
      in if neighbor \<notin> visited
         then add_neighbors g eids (insert neighbor visited) (bfs_queue @ [neighbor])
         else add_neighbors g eids visited bfs_queue)"

definition queued :: "scheduler \<Rightarrow> nat" where
  "queued s = sum_list (map length (pqueues s))"

text \<open>
  The \<^verbatim>\<open>while\<close> loop that fills the splash.  Its locals are the splash built so far, the work
  counter, the visited set and the queue of the search; of the scheduler it changes the
  priority queues and the count of shuffles.
\<close>
function bfs_loop :: "graph \<Rightarrow> shuffle \<Rightarrow> vertex_id list \<Rightarrow> nat \<Rightarrow> vertex_id set \<Rightarrow> vertex_id list
    \<Rightarrow> scheduler \<Rightarrow> (vertex_id list \<times> scheduler) option" where
  "bfs_loop g sh splash splash_work visited bfs_queue s =
     (if splash_work < splash_size s \<and> bfs_queue \<noteq> [] then
        (let vertex = hd bfs_queue; bfs_queue = tl bfs_queue; vertex_work = work g vertex
         in if vertex_work + splash_work > splash_size s
            then bfs_loop g sh splash splash_work visited bfs_queue s
            else (case vec_at (vmap s) vertex of None \<Rightarrow> None | Some qid \<Rightarrow>
                 (case vec_at (pqueues s) qid of None \<Rightarrow> None | Some q \<Rightarrow>
                    if \<not> fst (pq_remove q vertex)
                    then bfs_loop g sh splash splash_work visited bfs_queue
                           (s\<lparr>pqueues := (pqueues s)[qid := snd (pq_remove q vertex)]\<rparr>)
                    else bfs_loop g sh (splash @ [vertex]) (splash_work + vertex_work)
                           (fst (add_neighbors g (sh (rng s) (in_edge_ids g vertex)) visited bfs_queue))
                           (snd (add_neighbors g (sh (rng s) (in_edge_ids g vertex)) visited bfs_queue))
                           (s\<lparr>pqueues := (pqueues s)[qid := snd (pq_remove q vertex)],
                              rng := rng s + 1\<rparr>))))
      else Some (splash, s))"
  by pat_completeness auto


text \<open>
  \<open>rebuild_splash\<close> up to the end of its \<^verbatim>\<open>while\<close> loop: the splash in forward order.  When no
  root is found the function returns with the cleared, empty splash.
\<close>
definition grow_splash :: "graph \<Rightarrow> shuffle \<Rightarrow> nat \<Rightarrow> scheduler \<Rightarrow> (vertex_id list \<times> scheduler) option" where
  "grow_splash g sh cpuid s = do {
     splash \<leftarrow> vec_at (splashes s) cpuid;
     index \<leftarrow> vec_at (splash_index s) cpuid;
     if index \<noteq> length splash then None
     else do {
       let s = s\<lparr>splashes := (splashes s)[cpuid := []],
                 splash_index := (splash_index s)[cpuid := 0]\<rparr>;
       (found, s) \<leftarrow> get_top cpuid s;
       case found of
         None \<Rightarrow> Some ([], s)
       | Some (root_vertex, root_priority) \<Rightarrow>
           bfs_loop g sh [root_vertex]
             (if root_priority > 1 then splash_size s else work g root_vertex)
             (fst (seed_neighbors g (sh (rng s) (in_edge_ids g root_vertex)) {root_vertex} []))
             (snd (seed_neighbors g (sh (rng s) (in_edge_ids g root_vertex)) {root_vertex} []))
             (s\<lparr>rng := rng s + 1\<rparr>)
     }
   }"

text \<open>
  The reverse pass: \<^verbatim>\<open>std::reverse\<close>, \<^verbatim>\<open>resize\<close> (the new places hold 0) and the copying loop.
\<close>
definition reverse_pass :: "vertex_id list \<Rightarrow> vertex_id list" where
  "reverse_pass splash =
     (let original_size = length splash
      in if original_size > 1
         then foldl (\<lambda>sp i. sp[length sp - 1 - i := sp ! i])
                (rev splash @ replicate (original_size * 2 - 1 - original_size) 0)
                [0 ..< original_size - 1]
         else splash)"

definition rebuild_splash :: "graph \<Rightarrow> shuffle \<Rightarrow> nat \<Rightarrow> scheduler \<Rightarrow> scheduler option" where
  "rebuild_splash g sh cpuid s = do {
     (splash, s) \<leftarrow> grow_splash g sh cpuid s;
     Some (s\<lparr>splashes := (splashes s)[cpuid := reverse_pass splash]\<rparr>)
   }"

fun start_loop :: "graph \<Rightarrow> shuffle \<Rightarrow> nat list \<Rightarrow> scheduler \<Rightarrow> scheduler option" where
  "start_loop g sh [] s = Some s"
| "start_loop g sh (i # is) s = do { s \<leftarrow> rebuild_splash g sh i s; start_loop g sh is s }"

definition start :: "graph \<Rightarrow> shuffle \<Rightarrow> scheduler \<Rightarrow> scheduler option" where
  "start g sh s = do {
     s \<leftarrow> start_loop g sh [0 ..< ncpus s] s;
     Some (s\<lparr>terminator := terminator s @ [Reset]\<rparr>)
   }"

subsection \<open>Handing out the vertices of a splash\<close>

text \<open>
  One turn of the inner loop of \<open>next_task_from_splash\<close> is two steps.  The first reads the
  vertex under the cursor, advances the cursor and removes the vertex from its queue, under the
  lock of that queue.
\<close>
definition take_from_splash :: "vertex_id \<Rightarrow> nat \<Rightarrow> scheduler \<Rightarrow> scheduler option" where
  "take_from_splash vertex cpuid s = do {
     index \<leftarrow> vec_at (splash_index s) cpuid;
     let s = s\<lparr>splash_index := (splash_index s)[cpuid := index + 1]\<rparr>;
     qid \<leftarrow> vec_at (vmap s) vertex;
     q \<leftarrow> vec_at (pqueues s) qid;
     Some (s\<lparr>pqueues := (pqueues s)[qid := snd (pq_remove q vertex)]\<rparr>)
   }"

text \<open>
  The second step, after the lock is released, clears the bit of the vertex and produces the
  task when the bit was set.
\<close>
definition clear_and_produce :: "vertex_id \<Rightarrow> scheduler \<Rightarrow> (update_task option \<times> scheduler) option" where
  "clear_and_produce vertex s = do {
     (was_set, bits) \<leftarrow> bitset_clear_bit (active_set s) vertex;
     let s = s\<lparr>active_set := bits\<rparr>;
     if was_set
     then Some (Some (vertex, update_fun s),
                s\<lparr>monitor := tell (monitor s) (TaskScheduled (vertex, update_fun s) 1)\<rparr>)
     else Some (None, s)
   }"

text \<open>
  The inner \<^verbatim>\<open>while\<close> loop, over the part of the splash from the cursor on (the loop does not
  change the splash).  \<open>None\<close> as task: the splash ran out.
\<close>
fun drain_splash :: "vertex_id list \<Rightarrow> nat \<Rightarrow> scheduler \<Rightarrow> (update_task option \<times> scheduler) option" where
  "drain_splash [] cpuid s = Some (None, s)"
| "drain_splash (vertex # rest) cpuid s = do {
     s \<leftarrow> take_from_splash vertex cpuid s;
     (task, s) \<leftarrow> clear_and_produce vertex s;
     case task of Some t \<Rightarrow> Some (Some t, s) | None \<Rightarrow> drain_splash rest cpuid s
   }"

definition depleted :: "nat \<Rightarrow> scheduler \<Rightarrow> bool option" where
  "depleted cpuid s = do {
     index \<leftarrow> vec_at (splash_index s) cpuid;
     splash \<leftarrow> vec_at (splashes s) cpuid;
     Some (index \<ge> length splash)
   }"

definition remaining :: "nat \<Rightarrow> scheduler \<Rightarrow> vertex_id list" where
  "remaining cpuid s = drop (splash_index s ! cpuid) (splashes s ! cpuid)"

function next_task_from_splash :: "graph \<Rightarrow> shuffle \<Rightarrow> nat \<Rightarrow> scheduler \<Rightarrow> (sched_status \<times> scheduler) option" where
  "next_task_from_splash g sh cpuid s =
     (if \<not> cpuid < length (splashes s) then None
      else if aborted s then Some (WAITING, s)
      else (case depleted cpuid s of None \<Rightarrow> None | Some d \<Rightarrow>
           (case (if d then rebuild_splash g sh cpuid s else Some s) of None \<Rightarrow> None | Some s1 \<Rightarrow>
           (case depleted cpuid s1 of None \<Rightarrow> None | Some d1 \<Rightarrow>
              if d1 then Some (WAITING, s1)
              else (case drain_splash (remaining cpuid s1) cpuid s1 of
                      None \<Rightarrow> None
                    | Some (Some task, s2) \<Rightarrow> Some (NEWTASK task, s2)
                    | Some (None, s2) \<Rightarrow> next_task_from_splash g sh cpuid s2)))))"
  by pat_completeness auto

text \<open>
  \<open>get_next_task\<close>.  \<open>answers\<close> are the successive results of
  \<^verbatim>\<open>end_sleep_critical_section\<close>; when they run out the worker is still inside that call and
  \<open>get_next_task\<close> has not returned: the status is \<open>None\<close>.
\<close>
fun get_next_task :: "graph \<Rightarrow> shuffle \<Rightarrow> bool list \<Rightarrow> nat \<Rightarrow> scheduler \<Rightarrow> (sched_status option \<times> scheduler) option" where
  "get_next_task g sh answers cpuid s =
     (case next_task_from_splash g sh cpuid s of None \<Rightarrow> None | Some (ret, s) \<Rightarrow>
        if ret \<noteq> WAITING then Some (Some ret, s)
        else (case next_task_from_splash g sh cpuid (s\<lparr>terminator := terminator s @ [BeginSleep cpuid]\<rparr>) of
                None \<Rightarrow> None
              | Some (ret, s) \<Rightarrow>
                  if ret \<noteq> WAITING
                  then Some (Some ret, s\<lparr>terminator := terminator s @ [CancelSleep cpuid]\<rparr>)
                  else (case answers of
                          [] \<Rightarrow> Some (None, s\<lparr>terminator := terminator s @ [EndSleep cpuid]\<rparr>)
                        | a # answers \<Rightarrow>
                            if a then Some (Some COMPLETE, s\<lparr>terminator := terminator s @ [EndSleep cpuid]\<rparr>)
                            else get_next_task g sh answers cpuid
                                   (s\<lparr>terminator := terminator s @ [EndSleep cpuid]\<rparr>))))"

subsection \<open>Runs of the scheduler\<close>

datatype call =
    AddTask update_task real
  | AddTasks "vertex_id list" update_function real
  | AddTaskToAll update_function real
  | GetNextTask nat "bool list"
  | Start
  | Abort
  | Restart
  | SetSplashSize nat
  | SetUpdateFunction update_function

fun exec :: "graph \<Rightarrow> shuffle \<Rightarrow> call \<Rightarrow> scheduler \<Rightarrow> (sched_status option \<times> scheduler) option" where
  "exec g sh (AddTask task priority) s = map_option (Pair None) (add_task g task priority s)"
| "exec g sh (AddTasks vertices func priority) s = map_option (Pair None) (add_tasks g vertices func priority s)"
| "exec g sh (AddTaskToAll func priority) s = map_option (Pair None) (add_task_to_all g func priority s)"
| "exec g sh (GetNextTask cpuid answers) s = get_next_task g sh answers cpuid s"
| "exec g sh Start s = map_option (Pair None) (start g sh s)"
| "exec g sh Abort s = Some (None, abort s)"
| "exec g sh Restart s = map_option (Pair None) (restart s)"
| "exec g sh (SetSplashSize sz) s = Some (None, set_splash_size sz s)"
| "exec g sh (SetUpdateFunction func) s = Some (None, set_update_function func s)"

text \<open>A run: the calls are made one after the other, each on the state the former left.\<close>
fun run :: "graph \<Rightarrow> shuffle \<Rightarrow> call list \<Rightarrow> scheduler \<Rightarrow> (sched_status option list \<times> scheduler) option" where
  "run g sh [] s = Some ([], s)"
| "run g sh (c # cs) s =
     (case exec g sh c s of None \<Rightarrow> None | Some (r, s1) \<Rightarrow>
        (case run g sh cs s1 of None \<Rightarrow> None | Some (rs, s2) \<Rightarrow> Some (r # rs, s2)))"

text \<open>
  The states that runs reach from the constructed scheduler of \<open>n\<close> workers, whatever the 128
  places of the static array of \<open>get_top\<close> hold at construction.
\<close>
inductive reachable :: "graph \<Rightarrow> shuffle \<Rightarrow> nat \<Rightarrow> scheduler \<Rightarrow> bool" for g sh n where
  constructed: "length statics = 128 \<Longrightarrow> splash_scheduler g n statics = Some s \<Longrightarrow> reachable g sh n s"
| after_call: "reachable g sh n s \<Longrightarrow> exec g sh c s = Some (r, s') \<Longrightarrow> reachable g sh n s'"

text \<open>Whether a call submits vertex \<open>v\<close>.\<close>
fun submits :: "graph \<Rightarrow> vertex_id \<Rightarrow> call \<Rightarrow> bool" where
  "submits g v (AddTask task priority) = (fst task = v)"
| "submits g v (AddTasks vertices func priority) = (v \<in> set vertices)"
| "submits g v (AddTaskToAll func priority) = (v < num_vertices g)"
| "submits g v c = False"

definition produced :: "vertex_id \<Rightarrow> sched_status option \<Rightarrow> bool" where
  "produced v r = (case r of Some (NEWTASK task) \<Rightarrow> fst task = v | _ \<Rightarrow> False)"

definition bit_set :: "scheduler \<Rightarrow> vertex_id \<Rightarrow> bool" where
  "bit_set s v = (v < length (active_set s) \<and> active_set s ! v)"

definition in_queue :: "scheduler \<Rightarrow> nat \<Rightarrow> vertex_id \<Rightarrow> bool" where
  "in_queue s i v = (i < length (pqueues s) \<and> pq_contains (pqueues s ! i) v)"

definition coverage :: "scheduler \<Rightarrow> bool" where
  "coverage s = (\<forall>q \<in> set (pqueues s). \<forall>v \<in> set (map fst q). bit_set s v)"

definition confined :: "scheduler \<Rightarrow> bool" where
  "confined s = (\<forall>i \<in> set [0 ..< length (pqueues s)]. \<forall>v \<in> set (map fst (pqueues s ! i)).
                   v < length (vmap s) \<and> vmap s ! v = i)"

text \<open>
  A worker that polls alone: it calls \<open>get_next_task\<close> until the answer is not a task.  The
  terminator finds every other worker asleep, so \<^verbatim>\<open>end_sleep_critical_section\<close> answers true.
\<close>
function poll :: "graph \<Rightarrow> shuffle \<Rightarrow> nat \<Rightarrow> scheduler \<Rightarrow> (update_task list \<times> scheduler) option" where
  "poll g sh cpuid s =
     (case get_next_task g sh [True] cpuid s of
        None \<Rightarrow> None
      | Some (Some (NEWTASK task), s1) \<Rightarrow>
          (case poll g sh cpuid s1 of None \<Rightarrow> None | Some (tasks, s2) \<Rightarrow> Some (task # tasks, s2))
      | Some (_, s1) \<Rightarrow> Some ([], s1))"
  by pat_completeness auto

subsection \<open>Calls that run at the same time\<close>

text \<open>
  Where a worker is inside \<open>next_task_from_splash\<close>: outside of it, at the head of the
  outer loop, in \<open>get_top\<close> before the probe with loop index \<open>i\<close>, in the search loop of
  \<open>rebuild_splash\<close> with its local variables (the work counter, the visited set and the
  search queue), at the head of the inner loop, or between the \<^verbatim>\<open>unlock()\<close> and the
  \<^verbatim>\<open>clear_bit\<close> of a turn on a vertex.
\<close>
datatype pc =
    Outside
  | Top
  | Search nat
  | Grow nat "vertex_id set" "vertex_id list"
  | Hand
  | Clear vertex_id

text \<open>
  The scheduler together with the threads that are inside its calls.  \<open>pcs\<close> has one place
  for each worker.  \<open>queuelocks\<close> has one place for each queue: \<open>None\<close> when the lock is
  free, and the task, the priority and the local \<^verbatim>\<open>already_present\<close> of the call of
  \<open>add_task\<close> that holds the lock and has set the bit.  Every other section between a
  \<^verbatim>\<open>lock()\<close> and its \<^verbatim>\<open>unlock()\<close> is one step, so no other holder is ever seen.
\<close>
record system =
  sched :: scheduler
  pcs :: "pc list"
  queuelocks :: "(update_task \<times> real \<times> bool) option list"

text \<open>The threads as the constructor leaves them: nobody is inside a call, every lock is free.\<close>
definition boot :: "scheduler \<Rightarrow> system" where
  "boot s = \<lparr> sched = s, pcs = replicate (ncpus s) Outside,
              queuelocks = replicate (length (pqueues s)) None \<rparr>"

definition lock_free :: "system \<Rightarrow> nat \<Rightarrow> bool" where
  "lock_free c i = (vec_at (queuelocks c) i = Some None)"

definition jump :: "system \<Rightarrow> nat \<Rightarrow> pc \<Rightarrow> system" where
  "jump c cpuid pc = c\<lparr>pcs := (pcs c)[cpuid := pc]\<rparr>"

text \<open>
  \<open>add_task\<close> up to \<^verbatim>\<open>set_bit\<close>: the two asserts, the lock of the queue of the vertex, and the
  atomic \<^verbatim>\<open>set_bit\<close>.  The step waits while the lock is held.
\<close>
definition add_task_mark :: "graph \<Rightarrow> update_task \<Rightarrow> real \<Rightarrow> system \<Rightarrow> system option" where
  "add_task_mark g task priority c =
     (let s = sched c in
      if snd task \<noteq> update_fun s then None
      else if \<not> fst task < num_vertices g then None
      else do {
        let vertex = fst task;
        pqueue_id \<leftarrow> vec_at (vmap s) vertex;
        if \<not> lock_free c pqueue_id then None
        else do {
          (already_present, bits) \<leftarrow> bitset_set_bit (active_set s) vertex;
          Some (c\<lparr>sched := s\<lparr>active_set := bits\<rparr>,
                  queuelocks := (queuelocks c)[pqueue_id := Some (task, priority, already_present)]\<rparr>)
        }
      })"

text \<open>
  The rest of \<open>add_task\<close> for the call that holds the lock of queue \<open>pqueue_id\<close>: the test,
  \<^verbatim>\<open>insert_max\<close>, the \<^verbatim>\<open>unlock()\<close> and the notification of the terminator.
\<close>
definition add_task_enqueue :: "nat \<Rightarrow> system \<Rightarrow> system option" where
  "add_task_enqueue pqueue_id c = do {
     holder \<leftarrow> vec_at (queuelocks c) pqueue_id;
     (task, priority, already_present) \<leftarrow> holder;
     let s = sched c;
     let vertex = fst task;
     q \<leftarrow> vec_at (pqueues s) pqueue_id;
     let s = (if \<not> already_present \<or> pq_contains q vertex
              then s\<lparr>pqueues := (pqueues s)[pqueue_id := pq_insert_max q vertex priority],
                     monitor := tell (monitor s) (TaskAdded task priority)\<rparr>
              else s);
     let cpuid = pqueue_id div queue_multiple;
     if \<not> cpuid < ncpus s then None
     else Some (c\<lparr>sched := s\<lparr>terminator := terminator s @ [NewJob cpuid]\<rparr>,
                  queuelocks := (queuelocks c)[pqueue_id := None]\<rparr>)
   }"

text \<open>
  Back in \<open>next_task_from_splash\<close> after \<open>rebuild_splash\<close> has returned: \<^verbatim>\<open>WAITING\<close> when
  there is no splash, the inner loop otherwise.
\<close>
definition after_rebuild :: "nat \<Rightarrow> system \<Rightarrow> (sched_status option \<times> system) option" where
  "after_rebuild cpuid c = do {
     d \<leftarrow> depleted cpuid (sched c);
     if d then Some (Some WAITING, jump c cpuid Outside) else Some (None, jump c cpuid Hand)
   }"

text \<open>
  The head of the outer loop: the test of \<^verbatim>\<open>aborted\<close>, and for a depleted buffer the entry
  of \<open>rebuild_splash\<close> (its assert, \<^verbatim>\<open>splash.clear()\<close> and the reset of the cursor).
\<close>
definition top_step :: "nat \<Rightarrow> system \<Rightarrow> (sched_status option \<times> system) option" where
  "top_step cpuid c =
     (let s = sched c in
      if aborted s then Some (Some WAITING, jump c cpuid Outside)
      else do {
        d \<leftarrow> depleted cpuid s;
        if d then do {
          splash \<leftarrow> vec_at (splashes s) cpuid;
          index \<leftarrow> vec_at (splash_index s) cpuid;
          if index \<noteq> length splash then None
          else Some (None, (jump c cpuid (Search 0))\<lparr>sched :=
                 s\<lparr>splashes := (splashes s)[cpuid := []],
                   splash_index := (splash_index s)[cpuid := 0]\<rparr>\<rparr>)
        }
        else Some (None, jump c cpuid Hand)
      })"

text \<open>
  One turn of the loop of \<open>get_top\<close>.  When the probed queue is not empty, its top is popped
  under the lock, \<open>get_top\<close> returns, and \<open>rebuild_splash\<close> goes on to the head of its search
  loop: the root is pushed to the splash, which is the buffer of the worker itself (\<^verbatim>\<open>splash\<close>
  is a reference to it), and the in-neighbours of the root are queued.  After the last turn
  \<open>get_top\<close> returns false and \<open>rebuild_splash\<close> returns.
\<close>
definition search_step :: "graph \<Rightarrow> shuffle \<Rightarrow> nat \<Rightarrow> nat \<Rightarrow> system \<Rightarrow> (sched_status option \<times> system) option" where
  "search_step g sh cpuid i c =
     (let s = sched c in
      if i < queue_multiple then do {
        lastq \<leftarrow> vec_at (lastqid s) cpuid;
        let j = (i + lastq) mod queue_multiple;
        let index = cpuid * queue_multiple + j;
        if \<not> lock_free c index then None
        else do {
          q \<leftarrow> vec_at (pqueues s) index;
          if \<not> pq_empty q then do {
            let root_vertex = fst (pq_top q);
            let root_priority = snd (pq_top q);
            splash \<leftarrow> vec_at (splashes s) cpuid;
            let (visited, bfs_queue) =
              seed_neighbors g (sh (rng s) (in_edge_ids g root_vertex)) {root_vertex} [];
            Some (None, (jump c cpuid
                (Grow (if root_priority > 1 then splash_size s else work g root_vertex)
                   visited bfs_queue))\<lparr>sched :=
                 s\<lparr>pqueues := (pqueues s)[index := pq_pop q],
                   lastqid := (lastqid s)[cpuid := j + 1],
                   splashes := (splashes s)[cpuid := splash @ [root_vertex]],
                   rng := rng s + 1\<rparr>\<rparr>)
          }
          else Some (None, jump c cpuid (Search (i + 1)))
        }
      }
      else if cpuid < length (lastqid s)
      then after_rebuild cpuid (c\<lparr>sched := s\<lparr>lastqid := (lastqid s)[cpuid := 0]\<rparr>\<rparr>)
      else None)"

text \<open>
  One turn of the search loop of \<open>rebuild_splash\<close>; when the loop ends, the reverse pass and
  the return to \<open>next_task_from_splash\<close>.
\<close>
definition grow_step :: "graph \<Rightarrow> shuffle \<Rightarrow> nat \<Rightarrow> nat \<Rightarrow> vertex_id set \<Rightarrow> vertex_id list \<Rightarrow> system \<Rightarrow> (sched_status option \<times> system) option" where
  "grow_step g sh cpuid splash_work visited bfs_queue c =
     (let s = sched c in
      if splash_work < splash_size s \<and> bfs_queue \<noteq> [] then
        (let vertex = hd bfs_queue; bfs_queue = tl bfs_queue; vertex_work = work g vertex in
         if vertex_work + splash_work > splash_size s
         then Some (None, jump c cpuid (Grow splash_work visited bfs_queue))
         else do {
           qid \<leftarrow> vec_at (vmap s) vertex;
           if \<not> lock_free c qid then None
           else do {
             q \<leftarrow> vec_at (pqueues s) qid;
             let (success, q') = pq_remove q vertex;
             let s1 = s\<lparr>pqueues := (pqueues s)[qid := q']\<rparr>;
             if \<not> success
             then Some (None, (jump c cpuid (Grow splash_work visited bfs_queue))\<lparr>sched := s1\<rparr>)
             else do {
               splash \<leftarrow> vec_at (splashes s) cpuid;
               let (visited, bfs_queue) =
                 add_neighbors g (sh (rng s) (in_edge_ids g vertex)) visited bfs_queue;
               Some (None, (jump c cpuid (Grow (splash_work + vertex_work) visited bfs_queue))\<lparr>sched :=
                   s1\<lparr>splashes := (splashes s)[cpuid := splash @ [vertex]], rng := rng s + 1\<rparr>\<rparr>)
             }
           }
         })
      else do {
        splash \<leftarrow> vec_at (splashes s) cpuid;
        after_rebuild cpuid (c\<lparr>sched := s\<lparr>splashes := (splashes s)[cpuid := reverse_pass splash]\<rparr>\<rparr>)
      })"

text \<open>
  The head of the inner loop: with the buffer used up the outer loop goes round; otherwise
  the vertex under the cursor is taken and removed from its queue under the lock
  (\<open>take_from_splash\<close>), and the worker stands before \<^verbatim>\<open>clear_bit\<close>.
\<close>
definition hand_step :: "nat \<Rightarrow> system \<Rightarrow> (sched_status option \<times> system) option" where
  "hand_step cpuid c =
     (let s = sched c in do {
        index \<leftarrow> vec_at (splash_index s) cpuid;
        splash \<leftarrow> vec_at (splashes s) cpuid;
        if index < length splash then do {
          let vertex = splash ! index;
          qid \<leftarrow> vec_at (vmap s) vertex;
          if \<not> lock_free c qid then None
          else do {
            s \<leftarrow> take_from_splash vertex cpuid s;
            Some (None, (jump c cpuid (Clear vertex))\<lparr>sched := s\<rparr>)
          }
        }
        else Some (None, jump c cpuid Top)
      })"

text \<open>\<^verbatim>\<open>clear_bit\<close> and what follows it: the task is returned, or the inner loop goes round.\<close>
definition clear_step :: "vertex_id \<Rightarrow> nat \<Rightarrow> system \<Rightarrow> (sched_status option \<times> system) option" where
  "clear_step vertex cpuid c = do {
     (task, s) \<leftarrow> clear_and_produce vertex (sched c);
     case task of
       Some t \<Rightarrow> Some (Some (NEWTASK t), (jump c cpuid Outside)\<lparr>sched := s\<rparr>)
     | None \<Rightarrow> Some (None, (jump c cpuid Hand)\<lparr>sched := s\<rparr>)
   }"

text \<open>
  The next step of worker \<open>cpuid\<close> in \<open>next_task_from_splash\<close>, with the status when the
  call returns in this step.  \<open>None\<close>: the worker waits for a lock, or an assert fails.
\<close>
definition worker_step :: "graph \<Rightarrow> shuffle \<Rightarrow> nat \<Rightarrow> system \<Rightarrow> (sched_status option \<times> system) option" where
  "worker_step g sh cpuid c = do {
     pc \<leftarrow> vec_at (pcs c) cpuid;
     case pc of
       Outside \<Rightarrow> if cpuid < length (splashes (sched c)) then Some (None, jump c cpuid Top) else None
     | Top \<Rightarrow> top_step cpuid c
     | Search i \<Rightarrow> search_step g sh cpuid i c
     | Grow splash_work visited bfs_queue \<Rightarrow> grow_step g sh cpuid splash_work visited bfs_queue c
     | Hand \<Rightarrow> hand_step cpuid c
     | Clear vertex \<Rightarrow> clear_step vertex cpuid c
   }"

text \<open>
  The steps of an execution.  \<open>Mark\<close> and \<open>Enqueue\<close> are the two halves of a call of
  \<open>add_task\<close> (the calls of \<open>add_tasks\<close> and \<open>add_task_to_all\<close> are sequences of them),
  \<open>Work\<close> is the next step of a worker, and \<open>Whole\<close> is a call that is one step: \<open>abort\<close>,
  \<open>restart\<close> and the two setters at any time, and \<open>start\<close>, which is called right before
  the engine starts, when no worker is inside a call and no lock is held.
\<close>
datatype action =
    Mark update_task real
  | Enqueue nat
  | Work nat
  | Whole call

fun whole :: "system \<Rightarrow> call \<Rightarrow> bool" where
  "whole c Abort = True"
| "whole c Restart = True"
| "whole c (SetSplashSize sz) = True"
| "whole c (SetUpdateFunction func) = True"
| "whole c Start = (list_all (\<lambda>pc. pc = Outside) (pcs c) \<and> list_all (\<lambda>l. l = None) (queuelocks c))"
| "whole c _ = False"

fun cstep :: "graph \<Rightarrow> shuffle \<Rightarrow> action \<Rightarrow> system \<Rightarrow> (sched_status option \<times> system) option" where
  "cstep g sh (Mark task priority) c = map_option (Pair None) (add_task_mark g task priority c)"
| "cstep g sh (Enqueue pqueue_id) c = map_option (Pair None) (add_task_enqueue pqueue_id c)"
| "cstep g sh (Work cpuid) c = worker_step g sh cpuid c"
| "cstep g sh (Whole call) c =
     (if whole c call
      then map_option (\<lambda>(r, s). (r, c\<lparr>sched := s\<rparr>)) (exec g sh call (sched c))
      else None)"

text \<open>An execution: the steps are taken one after the other, in the order of the list.\<close>
fun execution :: "graph \<Rightarrow> shuffle \<Rightarrow> action list \<Rightarrow> system \<Rightarrow> (sched_status option list \<times> system) option" where
  "execution g sh [] c = Some ([], c)"
| "execution g sh (a # as) c =
     (case cstep g sh a c of None \<Rightarrow> None | Some (r, c1) \<Rightarrow>
        (case execution g sh as c1 of None \<Rightarrow> None | Some (rs, c2) \<Rightarrow> Some (r # rs, c2)))"

text \<open>
  An \<open>add_task\<close> for \<open>v\<close> sets the bit of \<open>v\<close> while a worker is between the queue removal
  and the \<^verbatim>\<open>clear_bit\<close> of a turn on \<open>v\<close>.
\<close>
fun clashes :: "system \<Rightarrow> action \<Rightarrow> bool" where
  "clashes c (Mark task priority) = (Clear (fst task) \<in> set (pcs c))"
| "clashes c a = False"

text \<open>An execution without such a step.\<close>
fun clash_free :: "graph \<Rightarrow> shuffle \<Rightarrow> action list \<Rightarrow> system \<Rightarrow> bool" where
  "clash_free g sh [] c = True"
| "clash_free g sh (a # as) c =
     (\<not> clashes c a \<and>
      (case cstep g sh a c of None \<Rightarrow> True | Some (r, c1) \<Rightarrow> clash_free g sh as c1))"

subsection \<open>Graphs of the scenarios\<close>

text \<open>
  Modelled from the spec: the graph container (graphlab/graph/graph.hpp is not among the
  sources), as the list of its edges; the identifier of an edge is its place in the list.
\<close>
definition graph_of :: "nat \<Rightarrow> (vertex_id \<times> vertex_id) list \<Rightarrow> graph" where
  "graph_of n es = \<lparr> num_vertices = n,
     in_edge_ids = (\<lambda>v. filter (\<lambda>e. snd (es ! e) = v) [0 ..< length es]),
     out_edge_ids = (\<lambda>v. filter (\<lambda>e. fst (es ! e) = v) [0 ..< length es]),
     source = (\<lambda>e. fst (es ! e)) \<rparr>"

definition chain5 :: graph where
  "chain5 = graph_of 5 [(0, 1), (1, 2), (2, 3), (3, 4)]"

definition chain5_reversed :: graph where
  "chain5_reversed = graph_of 5 [(1, 0), (2, 1), (3, 2), (4, 3)]"

text \<open>Two vertices and the edge from 1 to 0.\<close>
definition pair_graph :: graph where
  "pair_graph = graph_of 2 [(1, 0)]"

definition no_shuffle :: shuffle where
  "no_shuffle k xs = xs"

text \<open>What \<^verbatim>\<open>std::random_shuffle\<close> guarantees: the result is a permutation of the argument.\<close>
definition shuffles :: "shuffle \<Rightarrow> bool" where
  "shuffles sh = (\<forall>k xs. mset (sh k xs) = mset xs)"


text \<open>
  The scheduler of one worker for a graph of \<open>nv\<close> vertices, as the constructor leaves it in a
  process in which \<open>get_top\<close> has not run yet (the static array is still zero); the states of
  the scenarios are written as updates of it.
\<close>
definition fresh :: "nat \<Rightarrow> scheduler" where
  "fresh nv = \<lparr> ncpus = 1, splash_size = 100, update_fun = 0,
        pqueues = replicate 5 [],
        vmap = map (\<lambda>i. i mod 5) [0 ..< nv],
        splashes = [[]], splash_index = [0],
        active_set = replicate nv False,
        terminator = [], aborted = False, monitor = None,
        lastqid = replicate 128 0, rng = 0 \<rparr>"

text \<open>
  All five vertices of a chain submitted with priority 1 and update function 7
  (\<open>add_task_to_all\<close> on the constructed scheduler).
\<close>
definition submitted5 :: scheduler where
  "submitted5 = (fresh 5)\<lparr>update_fun := 7,
     pqueues := [[(0, 1)], [(1, 1)], [(2, 1)], [(3, 1)], [(4, 1)]],
     active_set := replicate 5 True, terminator := replicate 5 (NewJob 0)\<rparr>"

text \<open>
  The chain with the edges \<open>i \<rightarrow> i + 1\<close> after \<open>submitted5\<close> and one call of
  \<open>get_next_task\<close>: vertex 0 is handed out, the buffer \<open>[0]\<close> is used up and the vertices 1 to 4
  are in their queues.
\<close>
definition drained_one :: scheduler where
  "drained_one = submitted5\<lparr>pqueues := [[], [(1, 1)], [(2, 1)], [(3, 1)], [(4, 1)]],
     active_set := [False, True, True, True, True], splashes := [[0]], splash_index := [1],
     lastqid := (replicate 128 0)[0 := 1], rng := 1\<rparr>"


text \<open>
  The states of an interleaving on \<open>pair_graph\<close>.  Worker 0 has built the buffer \<open>[1, 0, 1]\<close>
  and handed out 1 and 0 (\<open>race_before\<close>).  On its next call it takes the second 1 from the
  buffer and releases the lock of the shard (\<open>race_taken\<close>); another thread runs
  \<open>add_task\<close> for vertex 1 (\<open>race_submitted\<close>); then the worker clears the bit
  (\<open>race_after\<close>).
\<close>
definition race_before :: scheduler where
  "race_before = (fresh 2)\<lparr>update_fun := 7, splashes := [[1, 0, 1]], splash_index := [2],
     terminator := [NewJob 0, NewJob 0], lastqid := (replicate 128 0)[0 := 1], rng := 2\<rparr>"

definition race_taken :: scheduler where
  "race_taken = race_before\<lparr>splash_index := [3]\<rparr>"

definition race_submitted :: scheduler where
  "race_submitted = race_taken\<lparr>pqueues := [[], [(1, 1)], [], [], []],
     active_set := [False, True], terminator := [NewJob 0, NewJob 0, NewJob 0]\<rparr>"

definition race_after :: scheduler where
  "race_after = race_submitted\<lparr>active_set := [False, False]\<rparr>"

text \<open>The forward half of a splash buffer: its places up to the middle one.\<close>
definition forward_half :: "vertex_id list \<Rightarrow> vertex_id list" where
  "forward_half buffer = take ((length buffer + 1) div 2) buffer"

section \<open>Termination of the search loop\<close>

lemma pq_remove_absent: "\<not> fst (pq_remove q v) \<Longrightarrow> snd (pq_remove q v) = q"
  by (induction q) (auto simp: pq_remove_def pq_contains_def)

lemma pq_remove_length: "fst (pq_remove q v) \<Longrightarrow> length (snd (pq_remove q v)) < length q"
  unfolding pq_remove_def pq_contains_def
  by (auto intro: length_filter_less)

lemma vec_at_update_same: "vec_at xs i = Some x \<Longrightarrow> xs[i := x] = xs"
  by (auto simp: vec_at_def split: if_splits)

lemma sum_list_update_length:
  "i < length qs \<Longrightarrow> sum_list (map length (qs[i := q])) + length (qs ! i) = sum_list (map length qs) + length q"
  by (induction qs arbitrary: i) (auto split: nat.splits)

lemma queued_update_less:
  "vec_at (pqueues s) i = Some q \<Longrightarrow> length q' < length q \<Longrightarrow> queued (s\<lparr>pqueues := (pqueues s)[i := q'], rng := r\<rparr>) < queued s"
  using sum_list_update_length[of i "pqueues s" q']
  by (auto simp: queued_def vec_at_def split: if_splits)

termination bfs_loop
  apply (relation "measures [\<lambda>(g, sh, splash, w, vis, bq, s). queued s, \<lambda>(g, sh, splash, w, vis, bq, s). length bq]")
  apply simp
  apply (auto simp: pq_remove_absent queued_update_less pq_remove_length vec_at_update_same)
  done

declare bfs_loop.simps [simp del]

section \<open>The reverse pass\<close>

lemma update_last_of_middle:
  assumes "b \<noteq> []"
  shows "(a @ b @ c)[length a + length b - 1 := x] = a @ butlast b @ x # c"
proof -
  obtain b' y where b: "b = b' @ [y]" using assms by (metis append_butlast_last_id)
  have "(a @ b' @ y # c)[length (a @ b') := x] = a @ b' @ x # c"
    by (metis append.assoc list_update_length)
  then show ?thesis by (simp add: b)
qed

lemma copy_back_prefix:
  assumes "length zs = length r - 1" "k \<le> length r - 1"
  shows "foldl (\<lambda>sp i. sp[length sp - 1 - i := sp ! i]) (r @ zs) [0 ..< k]
         = r @ take (length r - 1 - k) zs @ rev (take k r)"
  using assms(2)
proof (induction k)
  case 0
  then show ?case using assms(1) by simp
next
  case (Suc k)
  let ?n = "length r"
  let ?sp = "r @ take (?n - 1 - k) zs @ rev (take k r)"
  have k: "k < ?n - 1" using Suc.prems by simp
  have len: "length ?sp = 2 * ?n - 1" using assms(1) k by simp
  have ne: "take (?n - 1 - k) zs \<noteq> []" using assms(1) k by auto
  have pos: "length ?sp - 1 - k = length r + length (take (?n - 1 - k) zs) - 1"
    using assms(1) k by simp
  have "k < length r" using k by simp
  then have rd: "?sp ! k = r ! k" by (simp add: nth_append)
  have bl: "butlast (take (?n - 1 - k) zs) = take (?n - 1 - Suc k) zs"
    using assms(1) k by (simp add: butlast_take)
  have "foldl (\<lambda>sp i. sp[length sp - 1 - i := sp ! i]) (r @ zs) [0 ..< Suc k]
        = ?sp[length ?sp - 1 - k := ?sp ! k]"
    using Suc.IH k by simp
  also have "\<dots> = r @ butlast (take (?n - 1 - k) zs) @ (r ! k) # rev (take k r)"
    unfolding pos rd using update_last_of_middle[OF ne] by blast
  also have "\<dots> = r @ take (?n - 1 - Suc k) zs @ rev (take (Suc k) r)"
    unfolding bl using \<open>k < length r\<close> by (simp add: take_Suc_conv_app_nth)
  finally show ?case .
qed

lemma reverse_pass_eq:
  "reverse_pass xs = (if length xs > 1 then rev xs @ tl xs else xs)"
proof (cases "length xs > 1")
  case True
  let ?n = "length xs"
  have "reverse_pass xs = foldl (\<lambda>sp i. sp[length sp - 1 - i := sp ! i])
          (rev xs @ replicate (?n - 1) 0) [0 ..< ?n - 1]"
    using True by (simp add: reverse_pass_def Let_def mult_2_right)
  also have "\<dots> = rev xs @ take (length (rev xs) - 1 - (?n - 1)) (replicate (?n - 1) 0) @ rev (take (?n - 1) (rev xs))"
    using copy_back_prefix[of "replicate (?n - 1) 0" "rev xs" "?n - 1"] by simp
  also have "\<dots> = rev xs @ tl xs"
  proof -
    have "take (?n - 1) (rev xs) = rev (tl xs)"
      by (metis butlast_conv_take butlast_rev length_rev)
    then show ?thesis by simp
  qed
  finally show ?thesis using True by simp
next
  case False
  then show ?thesis by (simp add: reverse_pass_def)
qed

section \<open>Queues only lose entries while a splash is built\<close>

definition pruned :: "pqueue list \<Rightarrow> pqueue list \<Rightarrow> bool" where
  "pruned qs qs' = (length qs' = length qs \<and> (\<forall>i < length qs. \<exists>P. qs' ! i = filter P (qs ! i)))"

lemma pruned_refl: "pruned qs qs"
  unfolding pruned_def by (auto intro: exI[of _ "\<lambda>_. True"])

lemma pruned_trans: "pruned qs qs' \<Longrightarrow> pruned qs' qs'' \<Longrightarrow> pruned qs qs''"
  unfolding pruned_def
proof (intro conjI allI impI)
  fix i assume a: "length qs' = length qs \<and> (\<forall>i<length qs. \<exists>P. qs' ! i = filter P (qs ! i))"
    and b: "length qs'' = length qs' \<and> (\<forall>i<length qs'. \<exists>P. qs'' ! i = filter P (qs' ! i))"
    and i: "i < length qs"
  from a i obtain P where P: "qs' ! i = filter P (qs ! i)" by blast
  from a b i obtain Q where Q: "qs'' ! i = filter Q (qs' ! i)" by auto
  show "\<exists>P. qs'' ! i = filter P (qs ! i)"
    unfolding Q P filter_filter by blast
qed simp

lemma pruned_update: "vec_at qs i = Some q \<Longrightarrow> pruned qs (qs[i := filter P q])"
  unfolding pruned_def vec_at_def
  by (auto simp: nth_list_update intro: exI[of _ "\<lambda>_. True"] split: if_splits)

lemma pruned_length: "pruned qs qs' \<Longrightarrow> length qs' = length qs"
  by (simp add: pruned_def)

lemma pruned_subset: "pruned qs qs' \<Longrightarrow> i < length qs \<Longrightarrow> set (qs' ! i) \<subseteq> set (qs ! i)"
  unfolding pruned_def by (metis filter_is_subset)

lemma pruned_sum: "pruned qs qs' \<Longrightarrow> sum_list (map length qs') \<le> sum_list (map length qs)"
proof (induction qs arbitrary: qs')
  case Nil
  then show ?case by (simp add: pruned_def)
next
  case (Cons q qs)
  then obtain q' qs1 where qs': "qs' = q' # qs1" by (cases qs') (auto simp: pruned_def)
  have "pruned qs qs1"
    using Cons.prems unfolding pruned_def qs' by (auto simp: nth_Cons split: nat.splits)
  moreover have "length q' \<le> length q"
    using Cons.prems unfolding pruned_def qs' by (metis length_filter_le length_greater_0_conv list.discI nth_Cons_0)
  ultimately show ?case using Cons.IH qs' by fastforce
qed

lemma get_top_loop_frame:
  "get_top_loop is cpuid s = Some (r, s') \<Longrightarrow>
     splashes s' = splashes s \<and> splash_index s' = splash_index s \<and> active_set s' = active_set s \<and>
     vmap s' = vmap s \<and> aborted s' = aborted s \<and> splash_size s' = splash_size s \<and>
     update_fun s' = update_fun s \<and> ncpus s' = ncpus s \<and> rng s' = rng s \<and>
     terminator s' = terminator s \<and> monitor s' = monitor s"
  by (induction "is" arbitrary: s) (auto simp: Let_def split: if_splits Option.bind_splits)

lemma get_top_loop_pruned:
  "get_top_loop is cpuid s = Some (r, s') \<Longrightarrow> pruned (pqueues s) (pqueues s')"
  by (induction "is" arbitrary: s)
     (auto simp: Let_def pq_pop_def pruned_refl pruned_update split: if_splits Option.bind_splits)

lemma pq_top_mem: "q \<noteq> [] \<Longrightarrow> pq_top q \<in> set q"
proof -
  have "pq_max b q \<in> set (b # q)" for b q
    by (induction q arbitrary: b) (auto split: if_splits)
  then show "q \<noteq> [] \<Longrightarrow> pq_top q \<in> set q"
    unfolding pq_top_def by (metis list.collapse)
qed

lemma pq_pop_length: "q \<noteq> [] \<Longrightarrow> length (pq_pop q) < length q"
  unfolding pq_pop_def using pq_top_mem[of q] by (auto intro: length_filter_less)

lemma queued_update_less':
  "vec_at (pqueues s) i = Some q \<Longrightarrow> length q' < length q \<Longrightarrow> queued (s\<lparr>pqueues := (pqueues s)[i := q'], lastqid := r\<rparr>) < queued s"
  using sum_list_update_length[of i "pqueues s" q']
  by (auto simp: queued_def vec_at_def split: if_splits)

lemma get_top_loop_queued:
  "get_top_loop is cpuid s = Some (Some rp, s') \<Longrightarrow> queued s' < queued s"
  by (induction "is" arbitrary: s)
     (auto simp: Let_def pq_empty_def pq_pop_length queued_update_less' split: if_splits Option.bind_splits)

lemma bfs_loop_frame:
  "bfs_loop g sh splash w vis bq s = Some (sp, s') \<Longrightarrow>
     splashes s' = splashes s \<and> splash_index s' = splash_index s \<and> active_set s' = active_set s \<and>
     vmap s' = vmap s \<and> aborted s' = aborted s \<and> splash_size s' = splash_size s \<and>
     update_fun s' = update_fun s \<and> ncpus s' = ncpus s \<and> lastqid s' = lastqid s \<and>
     terminator s' = terminator s \<and> monitor s' = monitor s"
proof (induction g sh splash w vis bq s rule: bfs_loop.induct)
  case (1 g sh splash w vis bq s)
  show ?case
    using "1.prems" "1.IH"
    by (subst (asm) bfs_loop.simps) (auto simp: Let_def split: if_splits option.splits)
qed

lemma pruned_step:
  "vec_at qs i = Some q \<Longrightarrow> pruned (qs[i := filter P q]) qs' \<Longrightarrow> pruned qs qs'"
  using pruned_trans pruned_update by blast

text \<open>Induction over the turns of the search loop that a terminating call makes.\<close>
lemma bfs_loop_cases [consumes 1, case_names stop heavy absent added]:
  assumes run: "bfs_loop g sh splash w vis bq s = Some (sp, s')"
    and stop: "\<And>splash w vis bq s. \<not> (w < splash_size s \<and> bq \<noteq> []) \<Longrightarrow> P splash w vis bq s splash s"
    and heavy: "\<And>splash w vis bq s sp s'.
        w < splash_size s \<Longrightarrow> bq \<noteq> [] \<Longrightarrow> work g (hd bq) + w > splash_size s \<Longrightarrow>
        bfs_loop g sh splash w vis (tl bq) s = Some (sp, s') \<Longrightarrow>
        P splash w vis (tl bq) s sp s' \<Longrightarrow> P splash w vis bq s sp s'"
    and absent: "\<And>splash w vis bq s sp s' qid q.
        w < splash_size s \<Longrightarrow> bq \<noteq> [] \<Longrightarrow> work g (hd bq) + w \<le> splash_size s \<Longrightarrow>
        vec_at (vmap s) (hd bq) = Some qid \<Longrightarrow> vec_at (pqueues s) qid = Some q \<Longrightarrow>
        \<not> pq_contains q (hd bq) \<Longrightarrow>
        bfs_loop g sh splash w vis (tl bq) s = Some (sp, s') \<Longrightarrow>
        P splash w vis (tl bq) s sp s' \<Longrightarrow> P splash w vis bq s sp s'"
    and added: "\<And>splash w vis bq s sp s' qid q s1.
        w < splash_size s \<Longrightarrow> bq \<noteq> [] \<Longrightarrow> work g (hd bq) + w \<le> splash_size s \<Longrightarrow>
        vec_at (vmap s) (hd bq) = Some qid \<Longrightarrow> vec_at (pqueues s) qid = Some q \<Longrightarrow>
        pq_contains q (hd bq) \<Longrightarrow>
        s1 = s\<lparr>pqueues := (pqueues s)[qid := filter (\<lambda>kp. fst kp \<noteq> hd bq) q], rng := rng s + 1\<rparr> \<Longrightarrow>
        bfs_loop g sh (splash @ [hd bq]) (w + work g (hd bq))
          (fst (add_neighbors g (sh (rng s) (in_edge_ids g (hd bq))) vis (tl bq)))
          (snd (add_neighbors g (sh (rng s) (in_edge_ids g (hd bq))) vis (tl bq))) s1 = Some (sp, s') \<Longrightarrow>
        P (splash @ [hd bq]) (w + work g (hd bq))
          (fst (add_neighbors g (sh (rng s) (in_edge_ids g (hd bq))) vis (tl bq)))
          (snd (add_neighbors g (sh (rng s) (in_edge_ids g (hd bq))) vis (tl bq))) s1 sp s' \<Longrightarrow>
        P splash w vis bq s sp s'"
  shows "P splash w vis bq s sp s'"
  using assms
proof (induction g sh splash w vis bq s rule: bfs_loop.induct)
  case (1 g sh splash w vis bq s)
  note run = "1.prems"(1)
  note rules = "1.prems"(2-5)
  show ?case
  proof (cases "w < splash_size s \<and> bq \<noteq> []")
    case False
    then have "sp = splash" "s' = s" using run by (subst (asm) bfs_loop.simps; simp)+
    then show ?thesis using rules(1)[OF False] by simp
  next
    case go: True
    show ?thesis
    proof (cases "work g (hd bq) + w > splash_size s")
      case True
      then have r: "bfs_loop g sh splash w vis (tl bq) s = Some (sp, s')"
        using run go by (subst (asm) bfs_loop.simps) (simp add: Let_def)
      have "P splash w vis (tl bq) s sp s'"
        using "1.IH"(1)[OF go refl refl refl True r rules] .
      then show ?thesis using rules(2) go True r by blast
    next
      case light: False
      from run go light obtain qid q where
        qid: "vec_at (vmap s) (hd bq) = Some qid" and q: "vec_at (pqueues s) qid = Some q"
        by (subst (asm) bfs_loop.simps) (auto simp: Let_def split: option.splits)
      show ?thesis
      proof (cases "pq_contains q (hd bq)")
        case False
        then have nf: "\<not> fst (pq_remove q (hd bq))" by (simp add: pq_remove_def)
        have same: "s\<lparr>pqueues := (pqueues s)[qid := snd (pq_remove q (hd bq))]\<rparr> = s"
          using pq_remove_absent[OF nf] vec_at_update_same[OF q] by simp
        have r: "bfs_loop g sh splash w vis (tl bq) (s\<lparr>pqueues := (pqueues s)[qid := snd (pq_remove q (hd bq))]\<rparr>) = Some (sp, s')"
          using run go light qid q nf by (subst (asm) bfs_loop.simps) (simp add: Let_def)
        have "P splash w vis (tl bq) (s\<lparr>pqueues := (pqueues s)[qid := snd (pq_remove q (hd bq))]\<rparr>) sp s'"
          using "1.IH"(2)[OF go refl refl refl light qid q nf r rules] .
        then show ?thesis using rules(3)[of w s bq qid q splash vis sp s'] go light qid q False r
          unfolding same by simp
      next
        case True
        then have f: "\<not> \<not> fst (pq_remove q (hd bq))" by (simp add: pq_remove_def)
        let ?s1 = "s\<lparr>pqueues := (pqueues s)[qid := snd (pq_remove q (hd bq))], rng := rng s + 1\<rparr>"
        let ?vis = "fst (add_neighbors g (sh (rng s) (in_edge_ids g (hd bq))) vis (tl bq))"
        let ?bq = "snd (add_neighbors g (sh (rng s) (in_edge_ids g (hd bq))) vis (tl bq))"
        have r: "bfs_loop g sh (splash @ [hd bq]) (w + work g (hd bq)) ?vis ?bq ?s1 = Some (sp, s')"
          using run go light qid q f by (subst (asm) bfs_loop.simps) (simp add: Let_def)
        have "P (splash @ [hd bq]) (w + work g (hd bq)) ?vis ?bq ?s1 sp s'"
          using "1.IH"(3)[OF go refl refl refl light qid q f r rules] .
        then show ?thesis
          using rules(4)[of w s bq qid q ?s1 splash vis sp s'] go light qid q True r
          by (simp add: pq_remove_def)
      qed
    qed
  qed
qed

lemma bfs_loop_pruned:
  "bfs_loop g sh splash w vis bq s = Some (sp, s') \<Longrightarrow> pruned (pqueues s) (pqueues s')"
proof (induction rule: bfs_loop_cases)
  case (added splash w vis bq s sp s' qid q s1)
  then show ?case by (auto elim: pruned_step)
qed (simp_all add: pruned_refl)

lemma bfs_loop_splash:
  "bfs_loop g sh splash w vis bq s = Some (sp, s') \<Longrightarrow>
     \<exists>ext. sp = splash @ ext \<and> (ext \<noteq> [] \<longrightarrow> w < splash_size s \<and> w + sum_list (map (work g) ext) \<le> splash_size s)"
proof (induction rule: bfs_loop_cases)
  case (added splash w vis bq s sp s' qid q s1)
  then show ?case by auto
qed simp_all

lemma get_top_frame:
  "get_top cpuid s = Some (r, s') \<Longrightarrow>
     splashes s' = splashes s \<and> splash_index s' = splash_index s \<and> active_set s' = active_set s \<and>
     vmap s' = vmap s \<and> aborted s' = aborted s \<and> splash_size s' = splash_size s \<and>
     update_fun s' = update_fun s \<and> ncpus s' = ncpus s \<and> rng s' = rng s \<and>
     terminator s' = terminator s \<and> monitor s' = monitor s"
  unfolding get_top_def by (rule get_top_loop_frame)

text \<open>The two ways in which the growth of a splash ends.\<close>
lemma grow_splash_cases [consumes 1, case_names no_root rooted]:
  assumes "grow_splash g sh cpuid s = Some (fwd, s1)"
  obtains
    (no_root) "cpuid < length (splashes s)" "cpuid < length (splash_index s)"
      "splash_index s ! cpuid = length (splashes s ! cpuid)"
      "get_top cpuid (s\<lparr>splashes := (splashes s)[cpuid := []],
                         splash_index := (splash_index s)[cpuid := 0]\<rparr>) = Some (None, s1)"
      "fwd = []"
  | (rooted) root_vertex root_priority s0 where
      "cpuid < length (splashes s)" "cpuid < length (splash_index s)"
      "splash_index s ! cpuid = length (splashes s ! cpuid)"
      "get_top cpuid (s\<lparr>splashes := (splashes s)[cpuid := []],
                         splash_index := (splash_index s)[cpuid := 0]\<rparr>)
         = Some (Some (root_vertex, root_priority), s0)"
      "bfs_loop g sh [root_vertex]
         (if root_priority > 1 then splash_size s0 else work g root_vertex)
         (fst (seed_neighbors g (sh (rng s0) (in_edge_ids g root_vertex)) {root_vertex} []))
         (snd (seed_neighbors g (sh (rng s0) (in_edge_ids g root_vertex)) {root_vertex} []))
         (s0\<lparr>rng := rng s0 + 1\<rparr>) = Some (fwd, s1)"
  using assms unfolding grow_splash_def
  by (auto simp: vec_at_def Let_def split: if_splits Option.bind_splits option.splits)

lemma grow_splash_frame:
  assumes "grow_splash g sh cpuid s = Some (fwd, s1)"
  shows "splashes s1 = (splashes s)[cpuid := []] \<and> splash_index s1 = (splash_index s)[cpuid := 0] \<and>
     cpuid < length (splashes s) \<and> cpuid < length (splash_index s) \<and>
     active_set s1 = active_set s \<and> vmap s1 = vmap s \<and> aborted s1 = aborted s \<and>
     splash_size s1 = splash_size s \<and> update_fun s1 = update_fun s \<and> ncpus s1 = ncpus s \<and>
     terminator s1 = terminator s \<and> monitor s1 = monitor s"
  using assms
proof (cases rule: grow_splash_cases)
  case no_root
  then show ?thesis using get_top_frame[OF no_root(4)] by simp
next
  case (rooted root_vertex root_priority s0)
  then show ?thesis using get_top_frame[OF rooted(4)] bfs_loop_frame[OF rooted(5)] by simp
qed

lemma get_top_pruned: "get_top cpuid s = Some (r, s') \<Longrightarrow> pruned (pqueues s) (pqueues s')"
  unfolding get_top_def by (rule get_top_loop_pruned)

lemma grow_splash_pruned:
  assumes "grow_splash g sh cpuid s = Some (fwd, s1)"
  shows "pruned (pqueues s) (pqueues s1)"
  using assms
proof (cases rule: grow_splash_cases)
  case no_root
  then show ?thesis using get_top_pruned[OF no_root(4)] by simp
next
  case (rooted root_vertex root_priority s0)
  then show ?thesis
    using get_top_pruned[OF rooted(4)] bfs_loop_pruned[OF rooted(5)] pruned_trans by fastforce
qed

lemma queued_pruned: "pruned (pqueues s) (pqueues s') \<Longrightarrow> queued s' \<le> queued s"
  unfolding queued_def by (rule pruned_sum)

lemma grow_splash_queued:
  assumes "grow_splash g sh cpuid s = Some (fwd, s1)" "fwd \<noteq> []"
  shows "queued s1 < queued s"
  using assms(1)
proof (cases rule: grow_splash_cases)
  case no_root
  then show ?thesis using assms(2) by simp
next
  case (rooted root_vertex root_priority s0)
  have "queued s0 < queued (s\<lparr>splashes := (splashes s)[cpuid := []], splash_index := (splash_index s)[cpuid := 0]\<rparr>)"
    using rooted(4) unfolding get_top_def by (rule get_top_loop_queued)
  moreover have "queued s1 \<le> queued (s0\<lparr>rng := rng s0 + 1\<rparr>)"
    using bfs_loop_pruned[OF rooted(5)] by (rule queued_pruned)
  ultimately show ?thesis by (simp add: queued_def)
qed

lemma grow_splash_root:
  assumes "grow_splash g sh cpuid s = Some (fwd, s1)"
  shows "fwd = [] \<or> (\<exists>ext. fwd = hd fwd # ext \<and> (ext \<noteq> [] \<longrightarrow> work g (hd fwd) + sum_list (map (work g) ext) \<le> splash_size s))"
  using assms
proof (cases rule: grow_splash_cases)
  case no_root
  then show ?thesis by simp
next
  case (rooted root_vertex root_priority s0)
  have ss: "splash_size s0 = splash_size s" using get_top_frame[OF rooted(4)] by simp
  from bfs_loop_splash[OF rooted(5)] obtain ext where
    ext: "fwd = [root_vertex] @ ext"
      "ext \<noteq> [] \<longrightarrow> (if root_priority > 1 then splash_size s0 else work g root_vertex) < splash_size s
          \<and> (if root_priority > 1 then splash_size s0 else work g root_vertex) + sum_list (map (work g) ext) \<le> splash_size s"
    using ss by auto
  then show ?thesis using ss by (auto split: if_splits)
qed

lemma rebuild_splash_grow:
  "rebuild_splash g sh cpuid s = Some s' \<Longrightarrow>
     \<exists>fwd s1. grow_splash g sh cpuid s = Some (fwd, s1) \<and>
              s' = s1\<lparr>splashes := (splashes s1)[cpuid := reverse_pass fwd]\<rparr>"
  unfolding rebuild_splash_def by (auto split: Option.bind_splits)

lemma rebuild_splash_frame:
  assumes "rebuild_splash g sh cpuid s = Some s'"
  shows "length (splashes s') = length (splashes s) \<and> splash_index s' = (splash_index s)[cpuid := 0] \<and>
     cpuid < length (splashes s) \<and> cpuid < length (splash_index s) \<and>
     (\<forall>i. i \<noteq> cpuid \<longrightarrow> splashes s' ! i = splashes s ! i) \<and>
     active_set s' = active_set s \<and> vmap s' = vmap s \<and> aborted s' = aborted s \<and>
     splash_size s' = splash_size s \<and> update_fun s' = update_fun s \<and> ncpus s' = ncpus s \<and>
     terminator s' = terminator s \<and> monitor s' = monitor s"
  using rebuild_splash_grow[OF assms] grow_splash_frame by fastforce

lemma rebuild_splash_pruned:
  "rebuild_splash g sh cpuid s = Some s' \<Longrightarrow> pruned (pqueues s) (pqueues s')"
  using rebuild_splash_grow grow_splash_pruned by fastforce

lemma reverse_pass_Nil: "reverse_pass fwd = [] \<longleftrightarrow> fwd = []"
  by (auto simp: reverse_pass_eq)

lemma rebuild_splash_queued:
  assumes "rebuild_splash g sh cpuid s = Some s'" "splashes s' ! cpuid \<noteq> []"
  shows "queued s' < queued s"
proof -
  from rebuild_splash_grow[OF assms(1)] obtain fwd s1 where
    g: "grow_splash g sh cpuid s = Some (fwd, s1)"
    and s': "s' = s1\<lparr>splashes := (splashes s1)[cpuid := reverse_pass fwd]\<rparr>" by blast
  have "cpuid < length (splashes s1)" using grow_splash_frame[OF g] by simp
  then have "fwd \<noteq> []" using assms(2) s' by (auto simp: reverse_pass_Nil)
  then show ?thesis using grow_splash_queued[OF g] s' by (simp add: queued_def)
qed

section \<open>Handing out: effects and termination\<close>

lemma take_from_splash_effect:
  assumes "take_from_splash vertex cpuid s = Some s'"
  shows "cpuid < length (splash_index s) \<and> vertex < length (vmap s) \<and> vmap s ! vertex < length (pqueues s) \<and>
     s' = s\<lparr>splash_index := (splash_index s)[cpuid := splash_index s ! cpuid + 1],
            pqueues := (pqueues s)[vmap s ! vertex := filter (\<lambda>kp. fst kp \<noteq> vertex) (pqueues s ! (vmap s ! vertex))]\<rparr>"
  using assms unfolding take_from_splash_def
  by (auto simp: vec_at_def Let_def pq_remove_def split: if_splits Option.bind_splits)

lemma clear_and_produce_effect:
  assumes "clear_and_produce vertex s = Some (task, s')"
  shows "vertex < length (active_set s) \<and>
     task = (if active_set s ! vertex then Some (vertex, update_fun s) else None) \<and>
     s' = s\<lparr>active_set := (active_set s)[vertex := False],
            monitor := (if active_set s ! vertex
                        then tell (monitor s) (TaskScheduled (vertex, update_fun s) 1) else monitor s)\<rparr>"
  using assms unfolding clear_and_produce_def bitset_clear_bit_def
  by (auto simp: Let_def split: if_splits Option.bind_splits)

lemma drain_splash_frame:
  "drain_splash xs cpuid s = Some (task, s') \<Longrightarrow>
     splashes s' = splashes s \<and> length (splash_index s') = length (splash_index s) \<and>
     length (active_set s') = length (active_set s) \<and> vmap s' = vmap s \<and> aborted s' = aborted s \<and>
     splash_size s' = splash_size s \<and> update_fun s' = update_fun s \<and> ncpus s' = ncpus s \<and>
     terminator s' = terminator s \<and> lastqid s' = lastqid s \<and> rng s' = rng s"
proof (induction xs arbitrary: s)
  case Nil
  then show ?case by simp
next
  case (Cons vertex rest)
  from Cons.prems obtain s1 t1 s2 where
    a: "take_from_splash vertex cpuid s = Some s1" and b: "clear_and_produce vertex s1 = Some (t1, s2)"
    and c: "(case t1 of Some t \<Rightarrow> Some (Some t, s2) | None \<Rightarrow> drain_splash rest cpuid s2) = Some (task, s')"
    by (auto split: Option.bind_splits)
  note ea = take_from_splash_effect[OF a] and eb = clear_and_produce_effect[OF b]
  show ?case
  proof (cases t1)
    case None
    then show ?thesis using c Cons.IH[of s2] ea eb by simp
  next
    case (Some t)
    then show ?thesis using c ea eb by auto
  qed
qed

lemma drain_splash_pruned:
  "drain_splash xs cpuid s = Some (task, s') \<Longrightarrow> pruned (pqueues s) (pqueues s')"
proof (induction xs arbitrary: s)
  case Nil
  then show ?case by (simp add: pruned_refl)
next
  case (Cons vertex rest)
  from Cons.prems obtain s1 t1 s2 where
    a: "take_from_splash vertex cpuid s = Some s1" and b: "clear_and_produce vertex s1 = Some (t1, s2)"
    and c: "(case t1 of Some t \<Rightarrow> Some (Some t, s2) | None \<Rightarrow> drain_splash rest cpuid s2) = Some (task, s')"
    by (auto split: Option.bind_splits)
  note ea = take_from_splash_effect[OF a] and eb = clear_and_produce_effect[OF b]
  have "vec_at (pqueues s) (vmap s ! vertex) = Some (pqueues s ! (vmap s ! vertex))"
    using ea by (simp add: vec_at_def)
  then have p: "pruned (pqueues s) (pqueues s2)"
    using ea eb pruned_update by auto
  show ?case
  proof (cases t1)
    case None
    then show ?thesis using c Cons.IH[of s2] p pruned_trans by auto
  next
    case (Some t)
    then show ?thesis using c p by auto
  qed
qed

lemma drain_splash_index:
  "drain_splash xs cpuid s = Some (None, s') \<Longrightarrow> splash_index s' ! cpuid = splash_index s ! cpuid + length xs"
proof (induction xs arbitrary: s)
  case Nil
  then show ?case by simp
next
  case (Cons vertex rest)
  from Cons.prems obtain s1 t1 s2 where
    a: "take_from_splash vertex cpuid s = Some s1" and b: "clear_and_produce vertex s1 = Some (t1, s2)"
    and c: "(case t1 of Some t \<Rightarrow> Some (Some t, s2) | None \<Rightarrow> drain_splash rest cpuid s2) = Some (None, s')"
    by (auto split: Option.bind_splits)
  note ea = take_from_splash_effect[OF a] and eb = clear_and_produce_effect[OF b]
  show ?case
  proof (cases t1)
    case None
    then show ?thesis using c Cons.IH[of s2] ea eb by simp
  next
    case (Some t)
    then show ?thesis using c by simp
  qed
qed

lemma depleted_Some:
  "depleted cpuid s = Some d \<Longrightarrow>
     cpuid < length (splash_index s) \<and> cpuid < length (splashes s) \<and>
     d = (length (splashes s ! cpuid) \<le> splash_index s ! cpuid)"
  unfolding depleted_def by (auto simp: vec_at_def split: if_splits Option.bind_splits)

termination next_task_from_splash
proof (relation "measures [\<lambda>(g, sh, cpuid, s). queued s, \<lambda>(g, sh, cpuid, s). length (remaining cpuid s)]", goal_cases)
  case 1
  then show ?case by simp
next
  case (2 g sh cpuid s d s1 d1 r task s2)
  note d = depleted_Some[OF 2(3)] and d1 = depleted_Some[OF 2(5)]
  have dr: "drain_splash (remaining cpuid s1) cpuid s1 = Some (None, s2)" using 2 by simp
  have q2: "queued s2 \<le> queued s1" using drain_splash_pruned[OF dr] by (rule queued_pruned)
  have "splash_index s2 ! cpuid = splash_index s1 ! cpuid + length (remaining cpuid s1)"
    using drain_splash_index[OF dr] .
  moreover have "splashes s2 = splashes s1" using drain_splash_frame[OF dr] by simp
  ultimately have r2: "remaining cpuid s2 = []" by (simp add: remaining_def)
  show ?case
  proof (cases d)
    case True
    then have rb: "rebuild_splash g sh cpuid s = Some s1" using 2(4) by simp
    have "splashes s1 ! cpuid \<noteq> []" using d1 2(6) by auto
    then have "queued s1 < queued s" using rebuild_splash_queued[OF rb] by simp
    then show ?thesis using q2 by simp
  next
    case False
    then have "s1 = s" using 2(4) by simp
    moreover have "remaining cpuid s \<noteq> []" using d False by (simp add: remaining_def)
    ultimately show ?thesis using q2 r2 by auto
  qed
qed

declare next_task_from_splash.simps [simp del]

lemma next_task_unfold:
  assumes "next_task_from_splash g sh cpuid s = Some (r, s')"
  shows "cpuid < length (splashes s) \<and>
     (if aborted s then r = WAITING \<and> s' = s
      else \<exists>d s1 d1. depleted cpuid s = Some d \<and>
             (if d then rebuild_splash g sh cpuid s else Some s) = Some s1 \<and>
             depleted cpuid s1 = Some d1 \<and>
             (if d1 then r = WAITING \<and> s' = s1
              else \<exists>task s2. drain_splash (remaining cpuid s1) cpuid s1 = Some (task, s2) \<and>
                     (case task of Some t \<Rightarrow> r = NEWTASK t \<and> s' = s2
                      | None \<Rightarrow> next_task_from_splash g sh cpuid s2 = Some (r, s'))))"
proof -
  have c: "cpuid < length (splashes s)"
    using assms by (subst (asm) next_task_from_splash.simps) (simp split: if_split_asm)
  show ?thesis
  proof (cases "aborted s")
    case True
    then show ?thesis using assms c by (subst (asm) next_task_from_splash.simps) simp
  next
    case na: False
    obtain d where d: "depleted cpuid s = Some d"
      using assms c na by (subst (asm) next_task_from_splash.simps) (cases "depleted cpuid s"; simp)
    obtain s1 where s1: "(if d then rebuild_splash g sh cpuid s else Some s) = Some s1"
      using assms c na d by (subst (asm) next_task_from_splash.simps)
        (cases "if d then rebuild_splash g sh cpuid s else Some s"; simp)
    obtain d1 where d1: "depleted cpuid s1 = Some d1"
      using assms c na d s1 by (subst (asm) next_task_from_splash.simps)
        (cases "depleted cpuid s1"; simp)
    have body: "(if d1 then Some (WAITING, s1)
              else (case drain_splash (remaining cpuid s1) cpuid s1 of
                      None \<Rightarrow> None
                    | Some (Some task, s2) \<Rightarrow> Some (NEWTASK task, s2)
                    | Some (None, s2) \<Rightarrow> next_task_from_splash g sh cpuid s2)) = Some (r, s')"
      using assms c na d s1 d1 by (subst (asm) next_task_from_splash.simps) simp
    have "if d1 then r = WAITING \<and> s' = s1
              else \<exists>task s2. drain_splash (remaining cpuid s1) cpuid s1 = Some (task, s2) \<and>
                     (case task of Some t \<Rightarrow> r = NEWTASK t \<and> s' = s2
                      | None \<Rightarrow> next_task_from_splash g sh cpuid s2 = Some (r, s'))"
    proof (cases d1)
      case True
      then show ?thesis using body by simp
    next
      case False
      then obtain task s2 where dr: "drain_splash (remaining cpuid s1) cpuid s1 = Some (task, s2)"
        using body by (cases "drain_splash (remaining cpuid s1) cpuid s1") auto
      have "case task of Some t \<Rightarrow> r = NEWTASK t \<and> s' = s2
                      | None \<Rightarrow> next_task_from_splash g sh cpuid s2 = Some (r, s')"
        using body False dr by (cases task) simp_all
      then show ?thesis using False dr by simp
    qed
    then show ?thesis using c na d s1 d1 by auto
  qed
qed

text \<open>Induction over the turns of the outer loop that a terminating call makes.\<close>
lemma next_task_cases [consumes 1, case_names aborted waiting produced again]:
  assumes "next_task_from_splash g sh cpuid s = Some (r, s')"
    and "\<And>s. cpuid < length (splashes s) \<Longrightarrow> aborted s \<Longrightarrow> P s WAITING s"
    and "\<And>s d s1. cpuid < length (splashes s) \<Longrightarrow> \<not> aborted s \<Longrightarrow> depleted cpuid s = Some d \<Longrightarrow>
           (if d then rebuild_splash g sh cpuid s else Some s) = Some s1 \<Longrightarrow>
           depleted cpuid s1 = Some True \<Longrightarrow> P s WAITING s1"
    and "\<And>s d s1 task s2. cpuid < length (splashes s) \<Longrightarrow> \<not> aborted s \<Longrightarrow> depleted cpuid s = Some d \<Longrightarrow>
           (if d then rebuild_splash g sh cpuid s else Some s) = Some s1 \<Longrightarrow>
           depleted cpuid s1 = Some False \<Longrightarrow>
           drain_splash (remaining cpuid s1) cpuid s1 = Some (Some task, s2) \<Longrightarrow> P s (NEWTASK task) s2"
    and "\<And>s d s1 s2 r s'. cpuid < length (splashes s) \<Longrightarrow> \<not> aborted s \<Longrightarrow> depleted cpuid s = Some d \<Longrightarrow>
           (if d then rebuild_splash g sh cpuid s else Some s) = Some s1 \<Longrightarrow>
           depleted cpuid s1 = Some False \<Longrightarrow>
           drain_splash (remaining cpuid s1) cpuid s1 = Some (None, s2) \<Longrightarrow>
           next_task_from_splash g sh cpuid s2 = Some (r, s') \<Longrightarrow> P s2 r s' \<Longrightarrow> P s r s'"
  shows "P s r s'"
  using assms
proof (induction g sh cpuid s rule: next_task_from_splash.induct)
  case (1 g sh cpuid s)
  note run = "1.prems"(1)
  note rules = "1.prems"(2-5)
  note u = next_task_unfold[OF run]
  then have c: "cpuid < length (splashes s)" by simp
  show ?case
  proof (cases "aborted s")
    case True
    then show ?thesis using u rules(1)[OF c True] by simp
  next
    case na: False
    from u na obtain d s1 d1 where
      d: "depleted cpuid s = Some d"
      and s1: "(if d then rebuild_splash g sh cpuid s else Some s) = Some s1"
      and d1: "depleted cpuid s1 = Some d1"
      and rest: "if d1 then r = WAITING \<and> s' = s1
              else \<exists>task s2. drain_splash (remaining cpuid s1) cpuid s1 = Some (task, s2) \<and>
                     (case task of Some t \<Rightarrow> r = NEWTASK t \<and> s' = s2
                      | None \<Rightarrow> next_task_from_splash g sh cpuid s2 = Some (r, s'))"
      by auto
    show ?thesis
    proof (cases d1)
      case True
      then show ?thesis using rest rules(2)[OF c na d s1] d1 by simp
    next
      case False
      with rest obtain task s2 where
        dr: "drain_splash (remaining cpuid s1) cpuid s1 = Some (task, s2)"
        and fin: "case task of Some t \<Rightarrow> r = NEWTASK t \<and> s' = s2
                      | None \<Rightarrow> next_task_from_splash g sh cpuid s2 = Some (r, s')"
        by auto
      have d1f: "depleted cpuid s1 = Some False" using d1 False by simp
      show ?thesis
      proof (cases task)
        case (Some t)
        then show ?thesis using fin rules(3)[OF c na d s1 d1f] dr by simp
      next
        case None
        then have again: "next_task_from_splash g sh cpuid s2 = Some (r, s')" using fin by simp
        have nn: "\<not> \<not> cpuid < length (splashes s)" using c by simp
        have dr': "drain_splash (remaining cpuid s1) cpuid s1 = Some (None, s2)" using dr None by simp
        have "P s2 r s'"
          using "1.IH"[OF nn na d s1 d1 False dr' refl refl again rules] .
        then show ?thesis using rules(4)[OF c na d s1 d1f dr' again] by simp
      qed
    qed
  qed
qed

section \<open>Submission\<close>

lemma add_task_effect:
  assumes "add_task g task priority s = Some s'"
  shows "snd task = update_fun s \<and> fst task < num_vertices g \<and> fst task < length (vmap s) \<and>
     fst task < length (active_set s) \<and> vmap s ! fst task < length (pqueues s) \<and>
     vmap s ! fst task div queue_multiple < ncpus s \<and>
     s' = (if \<not> active_set s ! fst task \<or> pq_contains (pqueues s ! (vmap s ! fst task)) (fst task)
           then s\<lparr>active_set := (active_set s)[fst task := True],
                  pqueues := (pqueues s)[vmap s ! fst task :=
                     pq_insert_max (pqueues s ! (vmap s ! fst task)) (fst task) priority],
                  monitor := tell (monitor s) (TaskAdded task priority),
                  terminator := terminator s @ [NewJob (vmap s ! fst task div queue_multiple)]\<rparr>
           else s\<lparr>active_set := (active_set s)[fst task := True],
                  terminator := terminator s @ [NewJob (vmap s ! fst task div queue_multiple)]\<rparr>)"
  using assms unfolding add_task_def bitset_set_bit_def
  by (auto simp: vec_at_def Let_def split: if_splits Option.bind_splits)

lemma pq_insert_max_keys: "set (map fst (pq_insert_max q v p)) = insert v (set (map fst q))"
  unfolding pq_insert_max_def pq_contains_def by (force split: if_splits)

lemma pq_contains_insert_max: "pq_contains (pq_insert_max q v p) u \<longleftrightarrow> u = v \<or> pq_contains q u"
  using pq_insert_max_keys[of q v p] unfolding pq_contains_def by auto

lemma add_task_bits:
  assumes "add_task g task priority s = Some s'"
  shows "bit_set s' v \<longleftrightarrow> v = fst task \<or> bit_set s v"
  using add_task_effect[OF assms] by (auto simp: bit_set_def nth_list_update split: if_splits)

lemma add_task_queue:
  assumes "add_task g task priority s = Some s'"
  shows "in_queue s' i v \<longleftrightarrow>
     in_queue s i v \<or> (v = fst task \<and> i = vmap s ! fst task \<and> \<not> bit_set s v)"
proof -
  note e = add_task_effect[OF assms]
  show ?thesis
  proof (cases "\<not> active_set s ! fst task \<or> pq_contains (pqueues s ! (vmap s ! fst task)) (fst task)")
    case True
    then have "pqueues s' = (pqueues s)[vmap s ! fst task :=
                     pq_insert_max (pqueues s ! (vmap s ! fst task)) (fst task) priority]"
      using e by simp
    then show ?thesis
      using e True
      by (auto simp: in_queue_def bit_set_def pq_contains_insert_max nth_list_update)
  next
    case False
    then have "pqueues s' = pqueues s" using e by simp
    then show ?thesis using e False by (auto simp: in_queue_def bit_set_def)
  qed
qed

lemma add_task_frame:
  assumes "add_task g task priority s = Some s'"
  shows "vmap s' = vmap s \<and> length (pqueues s') = length (pqueues s) \<and>
     length (active_set s') = length (active_set s) \<and> splashes s' = splashes s \<and>
     splash_index s' = splash_index s \<and> aborted s' = aborted s \<and> update_fun s' = update_fun s \<and>
     splash_size s' = splash_size s \<and> ncpus s' = ncpus s \<and> lastqid s' = lastqid s"
  using add_task_effect[OF assms] by (auto split: if_splits)

text \<open>The two invariants in terms of \<open>in_queue\<close>.\<close>
lemma coverage_iff: "coverage s \<longleftrightarrow> (\<forall>i v. in_queue s i v \<longrightarrow> bit_set s v)"
  unfolding coverage_def in_queue_def pq_contains_def
  by (metis in_set_conv_nth)

lemma confined_iff: "confined s \<longleftrightarrow> (\<forall>i v. in_queue s i v \<longrightarrow> v < length (vmap s) \<and> vmap s ! v = i)"
  unfolding confined_def in_queue_def pq_contains_def by force

lemma add_task_coverage:
  assumes "add_task g task priority s = Some s'" "coverage s"
  shows "coverage s'"
  using assms(2) add_task_queue[OF assms(1)] add_task_bits[OF assms(1)]
  unfolding coverage_iff by blast

lemma add_task_confined:
  assumes "add_task g task priority s = Some s'" "confined s"
  shows "confined s'"
  using assms(2) add_task_queue[OF assms(1)] add_task_frame[OF assms(1)] add_task_effect[OF assms(1)]
  unfolding confined_iff by auto

lemma pruned_in_queue:
  "pruned (pqueues s) (pqueues s') \<Longrightarrow> in_queue s' i v \<Longrightarrow> in_queue s i v"
  using pruned_subset[of "pqueues s" "pqueues s'" i] pruned_length[of "pqueues s" "pqueues s'"]
  unfolding in_queue_def pq_contains_def by auto

section \<open>What a worker may change\<close>

text \<open>
  Building and handing out splashes only removes queue entries and clears bits, and a bit is
  cleared only after the vertex has left the queue of its shard.
\<close>
definition advances :: "scheduler \<Rightarrow> scheduler \<Rightarrow> bool" where
  "advances s s' \<longleftrightarrow>
     vmap s' = vmap s \<and> update_fun s' = update_fun s \<and> splash_size s' = splash_size s \<and>
     ncpus s' = ncpus s \<and> aborted s' = aborted s \<and>
     length (active_set s') = length (active_set s) \<and>
     length (splashes s') = length (splashes s) \<and>
     length (splash_index s') = length (splash_index s) \<and>
     pruned (pqueues s) (pqueues s') \<and>
     (\<forall>v. bit_set s' v \<longrightarrow> bit_set s v) \<and>
     (\<forall>v. bit_set s v \<and> \<not> bit_set s' v \<longrightarrow> v < length (vmap s) \<and> \<not> in_queue s' (vmap s ! v) v)"

lemma advances_refl: "advances s s"
  by (simp add: advances_def pruned_refl)

lemma advances_trans:
  assumes "advances s s1" "advances s1 s2"
  shows "advances s s2"
proof -
  have p: "pruned (pqueues s) (pqueues s2)"
    using assms pruned_trans unfolding advances_def by blast
  have "\<And>v. bit_set s v \<Longrightarrow> \<not> bit_set s2 v \<Longrightarrow> v < length (vmap s) \<and> \<not> in_queue s2 (vmap s ! v) v"
  proof -
    fix v assume v: "bit_set s v" "\<not> bit_set s2 v"
    show "v < length (vmap s) \<and> \<not> in_queue s2 (vmap s ! v) v"
    proof (cases "bit_set s1 v")
      case True
      then show ?thesis using assms v unfolding advances_def by metis
    next
      case False
      then have "v < length (vmap s) \<and> \<not> in_queue s1 (vmap s ! v) v"
        using assms(1) v unfolding advances_def by blast
      moreover have "pruned (pqueues s1) (pqueues s2)" using assms(2) unfolding advances_def by blast
      ultimately show ?thesis using pruned_in_queue by blast
    qed
  qed
  then show ?thesis using assms p unfolding advances_def by auto
qed

lemma advances_bookkeeping:
  "advances s (s\<lparr>terminator := t\<rparr>)" "advances s (s\<lparr>monitor := m\<rparr>)"
  "length sp = length (splashes s) \<Longrightarrow> length si = length (splash_index s) \<Longrightarrow>
     advances s (s\<lparr>splashes := sp, splash_index := si\<rparr>)"
  "length sp = length (splashes s) \<Longrightarrow> advances s (s\<lparr>splashes := sp\<rparr>)"
  by (auto simp: advances_def pruned_refl bit_set_def in_queue_def)

lemma advances_queues:
  assumes "pruned (pqueues s) (pqueues s')" "active_set s' = active_set s" "vmap s' = vmap s"
    "update_fun s' = update_fun s" "splash_size s' = splash_size s" "ncpus s' = ncpus s"
    "aborted s' = aborted s" "length (splashes s') = length (splashes s)"
    "length (splash_index s') = length (splash_index s)"
  shows "advances s s'"
  using assms by (auto simp: advances_def bit_set_def)

lemma rebuild_splash_advances:
  assumes "rebuild_splash g sh cpuid s = Some s'"
  shows "advances s s'"
  using rebuild_splash_frame[OF assms] rebuild_splash_pruned[OF assms]
  by (intro advances_queues) simp_all

lemma take_clear_advances:
  assumes a: "take_from_splash vertex cpuid s = Some s1"
    and b: "clear_and_produce vertex s1 = Some (task, s2)"
  shows "advances s s2"
proof -
  note ea = take_from_splash_effect[OF a] and eb = clear_and_produce_effect[OF b]
  let ?q = "vmap s ! vertex"
  have rng: "vertex < length (vmap s)" "?q < length (pqueues s)" "vertex < length (active_set s)"
    using ea eb by simp_all
  have fr: "vmap s2 = vmap s" "update_fun s2 = update_fun s" "splash_size s2 = splash_size s"
    "ncpus s2 = ncpus s" "aborted s2 = aborted s" "length (splashes s2) = length (splashes s)"
    "length (splash_index s2) = length (splash_index s)"
    using ea eb by simp_all
  have qs: "pqueues s2 = (pqueues s)[?q := filter (\<lambda>kp. fst kp \<noteq> vertex) (pqueues s ! ?q)]"
    using ea eb by simp
  have "vec_at (pqueues s) ?q = Some (pqueues s ! ?q)" using rng by (simp add: vec_at_def)
  then have p: "pruned (pqueues s) (pqueues s2)" unfolding qs by (rule pruned_update)
  have gone: "\<not> in_queue s2 ?q vertex"
    using rng unfolding in_queue_def qs pq_contains_def by auto
  have bits: "active_set s2 = (active_set s)[vertex := False]" using ea eb by simp
  have len: "length (active_set s2) = length (active_set s)" unfolding bits by simp
  have mono: "\<forall>v. bit_set s2 v \<longrightarrow> bit_set s v"
    unfolding bit_set_def bits using rng(3) by (auto simp: nth_list_update split: if_splits)
  have only: "\<forall>v. bit_set s v \<and> \<not> bit_set s2 v \<longrightarrow> v = vertex"
    unfolding bit_set_def bits using rng(3) by (auto simp: nth_list_update split: if_splits)
  have last: "\<forall>v. bit_set s v \<and> \<not> bit_set s2 v \<longrightarrow> v < length (vmap s) \<and> \<not> in_queue s2 (vmap s ! v) v"
    using only gone rng(1) by blast
  show ?thesis
    unfolding advances_def using fr len p mono last by blast
qed

lemma drain_splash_advances:
  "drain_splash xs cpuid s = Some (task, s') \<Longrightarrow> advances s s'"
proof (induction xs arbitrary: s)
  case Nil
  then show ?case by (simp add: advances_refl)
next
  case (Cons vertex rest)
  from Cons.prems obtain s1 t1 s2 where
    a: "take_from_splash vertex cpuid s = Some s1" and b: "clear_and_produce vertex s1 = Some (t1, s2)"
    and c: "(case t1 of Some t \<Rightarrow> Some (Some t, s2) | None \<Rightarrow> drain_splash rest cpuid s2) = Some (task, s')"
    by (auto split: Option.bind_splits)
  note ab = take_clear_advances[OF a b]
  show ?case
  proof (cases t1)
    case None
    then have "drain_splash rest cpuid s2 = Some (task, s')" using c by simp
    then have "advances s2 s'" by (rule Cons.IH)
    with ab show ?thesis by (rule advances_trans)
  next
    case (Some t)
    then have "s' = s2" using c by simp
    then show ?thesis using ab by simp
  qed
qed

text \<open>The task that the inner loop produces: its bit was set and is clear afterwards.\<close>
lemma drain_splash_task:
  "drain_splash xs cpuid s = Some (Some t, s') \<Longrightarrow>
     fst t \<in> set xs \<and> snd t = update_fun s \<and> bit_set s (fst t) \<and> \<not> bit_set s' (fst t)"
proof (induction xs arbitrary: s)
  case Nil
  then show ?case by simp
next
  case (Cons vertex rest)
  from Cons.prems obtain s1 t1 s2 where
    a: "take_from_splash vertex cpuid s = Some s1" and b: "clear_and_produce vertex s1 = Some (t1, s2)"
    and c: "(case t1 of Some t \<Rightarrow> Some (Some t, s2) | None \<Rightarrow> drain_splash rest cpuid s2) = Some (Some t, s')"
    by (auto split: Option.bind_splits)
  note ea = take_from_splash_effect[OF a] and eb = clear_and_produce_effect[OF b]
  note ab = take_clear_advances[OF a b]
  show ?case
  proof (cases t1)
    case None
    then have "drain_splash rest cpuid s2 = Some (Some t, s')" using c by simp
    then have "fst t \<in> set rest \<and> snd t = update_fun s2 \<and> bit_set s2 (fst t) \<and> \<not> bit_set s' (fst t)"
      by (rule Cons.IH)
    moreover have "update_fun s2 = update_fun s" "bit_set s2 (fst t) \<longrightarrow> bit_set s (fst t)"
      using ab unfolding advances_def by blast+
    ultimately show ?thesis by simp
  next
    case (Some t')
    then have tt: "t' = t" "s' = s2" using c by simp_all
    have t1: "t1 = (if active_set s1 ! vertex then Some (vertex, update_fun s1) else None)"
      using eb by simp
    have on: "active_set s1 ! vertex" using t1 Some by (simp split: if_splits)
    have same: "active_set s1 = active_set s" "update_fun s1 = update_fun s" using ea by simp_all
    have ft: "fst t = vertex" "snd t = update_fun s"
      using t1 on Some tt same by simp_all
    have vl: "vertex < length (active_set s)" using ea eb by simp
    have bs: "active_set s' = (active_set s)[vertex := False]" using ea eb tt by simp
    have "bit_set s vertex" using on same vl by (simp add: bit_set_def)
    moreover have "\<not> bit_set s' vertex" unfolding bit_set_def bs using vl by simp
    ultimately show ?thesis using ft by simp
  qed
qed

lemma refill_advances:
  "(if d then rebuild_splash g sh cpuid s else Some s) = Some s1 \<Longrightarrow> advances s s1"
  by (cases d) (simp_all add: rebuild_splash_advances advances_refl)

lemma next_task_advances:
  "next_task_from_splash g sh cpuid s = Some (r, s') \<Longrightarrow> advances s s'"
proof (induction rule: next_task_cases)
  case (aborted s)
  then show ?case by (simp add: advances_refl)
next
  case (waiting s d s1)
  then show ?case using refill_advances by blast
next
  case (produced s d s1 task s2)
  have "advances s s1" using produced(4) by (rule refill_advances)
  moreover have "advances s1 s2" using produced(6) by (rule drain_splash_advances)
  ultimately show ?case by (rule advances_trans)
next
  case (again s d s1 s2 r s')
  have "advances s s1" using again(4) by (rule refill_advances)
  moreover have "advances s1 s2" using again(6) by (rule drain_splash_advances)
  ultimately have "advances s s2" by (rule advances_trans)
  then show ?case using again(8) by (rule advances_trans)
qed

lemma next_task_result:
  "next_task_from_splash g sh cpuid s = Some (r, s') \<Longrightarrow>
     r \<noteq> COMPLETE \<and> (aborted s \<longrightarrow> r = WAITING \<and> s' = s) \<and>
     (\<forall>t. r = NEWTASK t \<longrightarrow> snd t = update_fun s \<and> bit_set s (fst t) \<and> \<not> bit_set s' (fst t))"
proof (induction rule: next_task_cases)
  case (produced s d s1 task s2)
  have a: "advances s s1" using produced(4) by (rule refill_advances)
  then have "update_fun s1 = update_fun s" "bit_set s1 (fst task) \<longrightarrow> bit_set s (fst task)"
    unfolding advances_def by blast+
  then show ?case using drain_splash_task[OF produced(6)] produced(2) by simp
next
  case (again s d s1 s2 r s')
  have "advances s s1" using again(4) by (rule refill_advances)
  moreover have "advances s1 s2" using again(6) by (rule drain_splash_advances)
  ultimately have "advances s s2" by (rule advances_trans)
  then have "update_fun s2 = update_fun s" "\<And>v. bit_set s2 v \<longrightarrow> bit_set s v"
    unfolding advances_def by blast+
  then show ?case using again(8) again(2) by simp
qed simp_all

declare get_next_task.simps [simp del]

text \<open>The ways in which a call of \<open>get_next_task\<close> ends, or goes on.\<close>
lemma get_next_task_cases [consumes 1, case_names direct cancelled asleep complete retry]:
  assumes "get_next_task g sh answers cpuid s = Some (r, s')"
    and "\<And>s ret s1. next_task_from_splash g sh cpuid s = Some (ret, s1) \<Longrightarrow> ret \<noteq> WAITING \<Longrightarrow>
           P s (Some ret) s1"
    and "\<And>s s1 ret s2. next_task_from_splash g sh cpuid s = Some (WAITING, s1) \<Longrightarrow>
           next_task_from_splash g sh cpuid (s1\<lparr>terminator := terminator s1 @ [BeginSleep cpuid]\<rparr>) = Some (ret, s2) \<Longrightarrow>
           ret \<noteq> WAITING \<Longrightarrow>
           P s (Some ret) (s2\<lparr>terminator := terminator s2 @ [CancelSleep cpuid]\<rparr>)"
    and "\<And>s s1 s2. next_task_from_splash g sh cpuid s = Some (WAITING, s1) \<Longrightarrow>
           next_task_from_splash g sh cpuid (s1\<lparr>terminator := terminator s1 @ [BeginSleep cpuid]\<rparr>) = Some (WAITING, s2) \<Longrightarrow>
           P s None (s2\<lparr>terminator := terminator s2 @ [EndSleep cpuid]\<rparr>)"
    and "\<And>s s1 s2. next_task_from_splash g sh cpuid s = Some (WAITING, s1) \<Longrightarrow>
           next_task_from_splash g sh cpuid (s1\<lparr>terminator := terminator s1 @ [BeginSleep cpuid]\<rparr>) = Some (WAITING, s2) \<Longrightarrow>
           P s (Some COMPLETE) (s2\<lparr>terminator := terminator s2 @ [EndSleep cpuid]\<rparr>)"
    and "\<And>s s1 s2 r s'. next_task_from_splash g sh cpuid s = Some (WAITING, s1) \<Longrightarrow>
           next_task_from_splash g sh cpuid (s1\<lparr>terminator := terminator s1 @ [BeginSleep cpuid]\<rparr>) = Some (WAITING, s2) \<Longrightarrow>
           P (s2\<lparr>terminator := terminator s2 @ [EndSleep cpuid]\<rparr>) r s' \<Longrightarrow> P s r s'"
  shows "P s r s'"
  using assms
proof (induction answers arbitrary: s)
  case Nil
  note run = Nil.prems(1) and rules = Nil.prems(2-6)
  from run obtain ret s1 where n1: "next_task_from_splash g sh cpuid s = Some (ret, s1)"
    by (subst (asm) get_next_task.simps) (auto split: option.splits)
  show ?case
  proof (cases "ret = WAITING")
    case False
    then have "r = Some ret \<and> s' = s1" using run n1 by (subst (asm) get_next_task.simps) simp
    then show ?thesis using rules(1)[OF n1 False] by simp
  next
    case True
    with run n1 obtain ret2 s2 where
      n2: "next_task_from_splash g sh cpuid (s1\<lparr>terminator := terminator s1 @ [BeginSleep cpuid]\<rparr>) = Some (ret2, s2)"
      by (subst (asm) get_next_task.simps) (auto split: option.splits)
    show ?thesis
    proof (cases "ret2 = WAITING")
      case False
      then have "r = Some ret2 \<and> s' = s2\<lparr>terminator := terminator s2 @ [CancelSleep cpuid]\<rparr>"
        using run n1 n2 True by (subst (asm) get_next_task.simps) simp
      then show ?thesis using rules(2)[OF _ n2 False] n1 True by simp
    next
      case w2: True
      then have "r = None \<and> s' = s2\<lparr>terminator := terminator s2 @ [EndSleep cpuid]\<rparr>"
        using run n1 n2 True by (subst (asm) get_next_task.simps) simp
      then show ?thesis using rules(3)[of s s1 s2] n1 n2 True w2 by simp
    qed
  qed
next
  case (Cons a answers)
  note run = Cons.prems(1) and rules = Cons.prems(2-6)
  from run obtain ret s1 where n1: "next_task_from_splash g sh cpuid s = Some (ret, s1)"
    by (subst (asm) get_next_task.simps) (auto split: option.splits)
  show ?case
  proof (cases "ret = WAITING")
    case False
    then have "r = Some ret \<and> s' = s1" using run n1 by (subst (asm) get_next_task.simps) simp
    then show ?thesis using rules(1)[OF n1 False] by simp
  next
    case True
    with run n1 obtain ret2 s2 where
      n2: "next_task_from_splash g sh cpuid (s1\<lparr>terminator := terminator s1 @ [BeginSleep cpuid]\<rparr>) = Some (ret2, s2)"
      by (subst (asm) get_next_task.simps) (auto split: option.splits)
    show ?thesis
    proof (cases "ret2 = WAITING")
      case False
      then have "r = Some ret2 \<and> s' = s2\<lparr>terminator := terminator s2 @ [CancelSleep cpuid]\<rparr>"
        using run n1 n2 True by (subst (asm) get_next_task.simps) simp
      then show ?thesis using rules(2)[OF _ n2 False] n1 True by simp
    next
      case w2: True
      have n1': "next_task_from_splash g sh cpuid s = Some (WAITING, s1)" using n1 True by simp
      have n2': "next_task_from_splash g sh cpuid (s1\<lparr>terminator := terminator s1 @ [BeginSleep cpuid]\<rparr>) = Some (WAITING, s2)"
        using n2 w2 by simp
      show ?thesis
      proof (cases a)
        case True
        then have "r = Some COMPLETE \<and> s' = s2\<lparr>terminator := terminator s2 @ [EndSleep cpuid]\<rparr>"
          using run n1' n2' by (subst (asm) get_next_task.simps) simp
        then show ?thesis using rules(4)[OF n1' n2'] by simp
      next
        case False
        then have again: "get_next_task g sh answers cpuid (s2\<lparr>terminator := terminator s2 @ [EndSleep cpuid]\<rparr>) = Some (r, s')"
          using run n1' n2' by (subst (asm) get_next_task.simps) simp
        have "P (s2\<lparr>terminator := terminator s2 @ [EndSleep cpuid]\<rparr>) r s'"
          using Cons.IH[OF again rules] .
        then show ?thesis using rules(5)[OF n1' n2'] by simp
      qed
    qed
  qed
qed

lemma two_tries_advance:
  assumes "next_task_from_splash g sh cpuid s = Some (r1, s1)"
    and "next_task_from_splash g sh cpuid (s1\<lparr>terminator := t1\<rparr>) = Some (r2, s2)"
  shows "advances s (s2\<lparr>terminator := t2\<rparr>)"
proof -
  have "advances s s1" using assms(1) by (rule next_task_advances)
  moreover have "advances s1 (s1\<lparr>terminator := t1\<rparr>)" by (rule advances_bookkeeping)
  ultimately have "advances s (s1\<lparr>terminator := t1\<rparr>)" by (rule advances_trans)
  moreover have "advances (s1\<lparr>terminator := t1\<rparr>) s2" using assms(2) by (rule next_task_advances)
  ultimately have "advances s s2" by (rule advances_trans)
  moreover have "advances s2 (s2\<lparr>terminator := t2\<rparr>)" by (rule advances_bookkeeping)
  ultimately show ?thesis by (rule advances_trans)
qed

lemma get_next_task_advances:
  "get_next_task g sh answers cpuid s = Some (r, s') \<Longrightarrow> advances s s'"
proof (induction rule: get_next_task_cases)
  case (direct s ret s1)
  then show ?case using next_task_advances by blast
next
  case (cancelled s s1 ret s2)
  then show ?case using two_tries_advance by blast
next
  case (asleep s s1 s2)
  then show ?case using two_tries_advance by blast
next
  case (complete s s1 s2)
  then show ?case using two_tries_advance by blast
next
  case (retry s s1 s2 r s')
  have "advances s (s2\<lparr>terminator := terminator s2 @ [EndSleep cpuid]\<rparr>)"
    using retry(1,2) by (rule two_tries_advance)
  then show ?case using retry(3) by (rule advances_trans)
qed

text \<open>\<open>get_next_task\<close> never answers \<open>WAITING\<close>; a task it produces had its bit set, and clear after.\<close>
lemma get_next_task_result:
  "get_next_task g sh answers cpuid s = Some (r, s') \<Longrightarrow>
     r \<noteq> Some WAITING \<and>
     (\<forall>t. r = Some (NEWTASK t) \<longrightarrow> snd t = update_fun s \<and> bit_set s (fst t) \<and> \<not> bit_set s' (fst t))"
proof (induction rule: get_next_task_cases)
  case (direct s ret s1)
  then show ?case using next_task_result by blast
next
  case (cancelled s s1 ret s2)
  have a: "advances s s1" using cancelled(1) by (rule next_task_advances)
  let ?s1 = "s1\<lparr>terminator := terminator s1 @ [BeginSleep cpuid]\<rparr>"
  have "\<forall>t. ret = NEWTASK t \<longrightarrow> snd t = update_fun ?s1 \<and> bit_set ?s1 (fst t) \<and> \<not> bit_set s2 (fst t)"
    using next_task_result[OF cancelled(2)] by blast
  moreover have "update_fun ?s1 = update_fun s" "\<And>v. bit_set ?s1 v \<longrightarrow> bit_set s v"
    using a unfolding advances_def by (simp_all add: bit_set_def)
  ultimately show ?case using cancelled(3) by (auto simp: bit_set_def)
next
  case (retry s s1 s2 r s')
  have "advances s (s2\<lparr>terminator := terminator s2 @ [EndSleep cpuid]\<rparr>)"
    using retry(1,2) by (rule two_tries_advance)
  then have "update_fun (s2\<lparr>terminator := terminator s2 @ [EndSleep cpuid]\<rparr>) = update_fun s"
    "\<And>v. bit_set (s2\<lparr>terminator := terminator s2 @ [EndSleep cpuid]\<rparr>) v \<longrightarrow> bit_set s v"
    unfolding advances_def by blast+
  then show ?case using retry(3) by simp
qed simp_all

definition outstanding :: "scheduler \<Rightarrow> nat" where
  "outstanding s = card {v. bit_set s v}"

lemma outstanding_less:
  assumes "advances s s'" "bit_set s v" "\<not> bit_set s' v"
  shows "outstanding s' < outstanding s"
proof -
  have "finite {v. bit_set s v}" unfolding bit_set_def by simp
  moreover have "{v. bit_set s' v} \<subset> {v. bit_set s v}"
    using assms unfolding advances_def by blast
  ultimately show ?thesis unfolding outstanding_def by (rule psubset_card_mono)
qed

termination poll
proof (relation "measure (\<lambda>(g, sh, cpuid, s). outstanding s)", goal_cases)
  case 1
  then show ?case by simp
next
  case (2 g sh cpuid s x2 x y ret task)
  then have run: "get_next_task g sh [True] cpuid s = Some (Some (NEWTASK task), y)" by simp
  have "bit_set s (fst task)" "\<not> bit_set y (fst task)"
    using get_next_task_result[OF run] by simp_all
  then have "outstanding y < outstanding s"
    using get_next_task_advances[OF run] outstanding_less by blast
  then show ?case by simp
qed

declare poll.simps [simp del]

section \<open>Claims about one splash\<close>

lemma palindrome_nth:
  assumes "fwd \<noteq> []" "i < 2 * length fwd - 1"
  shows "(rev fwd @ tl fwd) ! i = (rev fwd @ tl fwd) ! (2 * length fwd - 2 - i)"
proof -
  define b where "b = rev fwd @ tl fwd"
  have r: "rev b = b" unfolding b_def using assms(1) by (cases fwd) simp_all
  have l: "length b = 2 * length fwd - 1" unfolding b_def using assms(1) by (cases fwd) simp_all
  have "i < length b" using assms(2) l by simp
  then have "rev b ! i = b ! (length b - Suc i)" by (rule rev_nth)
  then have "b ! i = b ! (length b - Suc i)" unfolding r .
  moreover have "length b - Suc i = 2 * length fwd - 2 - i" using l by linarith
  ultimately show ?thesis unfolding b_def by simp
qed

text \<open>
  C5.  Let \<open>fwd\<close> be the splash that \<open>rebuild_splash\<close> has grown when its loop ends, of length
  \<open>n\<close>.  If \<open>n > 1\<close> the buffer it leaves has length \<open>2n - 1\<close>, reads the same in both
  directions (\<open>buffer[i] = buffer[2n - 2 - i]\<close>) and its places \<open>0, ..., n - 1\<close> hold \<open>fwd\<close>
  reversed; otherwise the buffer is \<open>fwd\<close> itself.  The cursor of the worker is 0.
\<close>
theorem rebuild_splash_palindrome:
  assumes "rebuild_splash g sh cpuid s = Some s'"
  shows "\<exists>fwd s1. grow_splash g sh cpuid s = Some (fwd, s1) \<and> splash_index s' ! cpuid = 0 \<and>
           (if length fwd > 1
            then length (splashes s' ! cpuid) = 2 * length fwd - 1 \<and>
                 (\<forall>i < 2 * length fwd - 1.
                    splashes s' ! cpuid ! i = splashes s' ! cpuid ! (2 * length fwd - 2 - i)) \<and>
                 take (length fwd) (splashes s' ! cpuid) = rev fwd
            else splashes s' ! cpuid = fwd)"
proof -
  from rebuild_splash_grow[OF assms] obtain fwd s1 where
    g: "grow_splash g sh cpuid s = Some (fwd, s1)"
    and s': "s' = s1\<lparr>splashes := (splashes s1)[cpuid := reverse_pass fwd]\<rparr>" by blast
  note f = grow_splash_frame[OF g]
  have buf: "splashes s' ! cpuid = reverse_pass fwd" using s' f by simp
  have idx: "splash_index s' ! cpuid = 0" using s' f by simp
  have shape: "if length fwd > 1
            then length (reverse_pass fwd) = 2 * length fwd - 1 \<and>
                 (\<forall>i < 2 * length fwd - 1.
                    reverse_pass fwd ! i = reverse_pass fwd ! (2 * length fwd - 2 - i)) \<and>
                 take (length fwd) (reverse_pass fwd) = rev fwd
            else reverse_pass fwd = fwd"
  proof (cases "length fwd > 1")
    case True
    then have ne: "fwd \<noteq> []" by auto
    have rp: "reverse_pass fwd = rev fwd @ tl fwd" using True by (simp add: reverse_pass_eq)
    have "length (rev fwd @ tl fwd) = 2 * length fwd - 1" using ne by (cases fwd) simp_all
    moreover have "\<forall>i < 2 * length fwd - 1.
        (rev fwd @ tl fwd) ! i = (rev fwd @ tl fwd) ! (2 * length fwd - 2 - i)"
      using palindrome_nth[OF ne] by blast
    ultimately show ?thesis using True rp by simp
  next
    case False
    then show ?thesis by (simp add: reverse_pass_eq)
  qed
  show ?thesis using g idx shape unfolding buf by blast
qed

theorem rebuild_splash_palindrome_witness:
  "rebuild_splash chain5_reversed no_shuffle 0
     ((fresh 5)\<lparr>update_fun := 7, pqueues := [[(0, 1)], [(1, 1)], [(2, 1)], [(3, 1)], [(4, 1)]],
        active_set := replicate 5 True\<rparr>)
   = Some ((fresh 5)\<lparr>update_fun := 7, active_set := replicate 5 True,
        splashes := [[4, 3, 2, 1, 0, 1, 2, 3, 4]], lastqid := (replicate 128 0)[0 := 1], rng := 5\<rparr>)
   \<and> length [4, 3, 2, 1, 0, 1, 2, 3, 4 :: nat] = 2 * length [0, 1, 2, 3, 4 :: nat] - 1
   \<and> take 5 [4, 3, 2, 1, 0, 1, 2, 3, 4 :: nat] = rev [0, 1, 2, 3, 4]"
proof -
  define s where "s = (fresh 5)\<lparr>update_fun := 7,
        pqueues := [[(0, 1)], [(1, 1)], [(2, 1)], [(3, 1)], [(4, 1)]], active_set := replicate 5 True\<rparr>"
  define s' where "s' = (fresh 5)\<lparr>update_fun := 7, active_set := replicate 5 True,
        splashes := [[4, 3, 2, 1, 0, 1, 2, 3, 4]], lastqid := (replicate 128 0)[0 := 1], rng := 5\<rparr>"
  define s1 where "s1 = (fresh 5)\<lparr>update_fun := 7, active_set := replicate 5 True,
        lastqid := (replicate 128 0)[0 := 1], rng := 5\<rparr>"
  have h: "rebuild_splash chain5_reversed no_shuffle 0 s = Some s'"
    unfolding s_def s'_def by code_simp
  have g: "grow_splash chain5_reversed no_shuffle 0 s = Some ([0, 1, 2, 3, 4], s1)"
    unfolding s_def s1_def by code_simp
  have b: "splashes s' ! 0 = [4, 3, 2, 1, 0, 1, 2, 3, 4]"
    unfolding s'_def by code_simp
  from rebuild_splash_palindrome[OF h] g
  have "length (splashes s' ! 0) = 2 * length [0, 1, 2, 3, 4 :: nat] - 1 \<and>
        take (length [0, 1, 2, 3, 4 :: nat]) (splashes s' ! 0) = rev [0, 1, 2, 3, 4]"
    by auto
  then show ?thesis using h unfolding b unfolding s_def s'_def by simp
qed

text \<open>
  C6.  When \<open>add_task\<close> returns, the bit of the vertex is set; the queue of its shard
  \<open>vmap[vertex]\<close> has received \<open>insert_max\<close> exactly when the bit was clear before or the
  queue held the vertex already, so a vertex with its bit set and absent from its queue is
  not put back; and the last call on the terminator is \<open>new_job\<close> for the worker
  \<open>vmap[vertex] / queue_multiple\<close>.
\<close>
theorem add_task_sets_bit_and_enqueues:
  assumes "add_task g task priority s = Some s'"
  shows "active_set s' = (active_set s)[fst task := True] \<and> bit_set s' (fst task) \<and>
     pqueues s' =
       (if \<not> bit_set s (fst task) \<or> in_queue s (vmap s ! fst task) (fst task)
        then (pqueues s)[vmap s ! fst task :=
               pq_insert_max (pqueues s ! (vmap s ! fst task)) (fst task) priority]
        else pqueues s) \<and>
     (in_queue s' (vmap s ! fst task) (fst task) \<longleftrightarrow>
        \<not> bit_set s (fst task) \<or> in_queue s (vmap s ! fst task) (fst task)) \<and>
     terminator s' = terminator s @ [NewJob (vmap s ! fst task div queue_multiple)]"
proof -
  note e = add_task_effect[OF assms]
  have bits: "active_set s' = (active_set s)[fst task := True]" using e by (auto split: if_splits)
  have bit: "bit_set s' (fst task)" using add_task_bits[OF assms] by simp
  have qs: "pqueues s' =
       (if \<not> bit_set s (fst task) \<or> in_queue s (vmap s ! fst task) (fst task)
        then (pqueues s)[vmap s ! fst task :=
               pq_insert_max (pqueues s ! (vmap s ! fst task)) (fst task) priority]
        else pqueues s)"
    using e by (auto simp: bit_set_def in_queue_def split: if_splits)
  have inq: "in_queue s' (vmap s ! fst task) (fst task) \<longleftrightarrow>
        \<not> bit_set s (fst task) \<or> in_queue s (vmap s ! fst task) (fst task)"
    using add_task_queue[OF assms, of "vmap s ! fst task" "fst task"] by auto
  have tm: "terminator s' = terminator s @ [NewJob (vmap s ! fst task div queue_multiple)]"
    using e by (auto split: if_splits)
  show ?thesis using bits bit qs inq tm by blast
qed

theorem add_task_sets_bit_and_enqueues_witness:
  "add_task chain5 (2, 7) 1
     ((fresh 5)\<lparr>update_fun := 7, active_set := [False, False, True, False, False],
        splashes := [[2]]\<rparr>)
   = Some ((fresh 5)\<lparr>update_fun := 7, active_set := [False, False, True, False, False],
        splashes := [[2]], terminator := [NewJob 0]\<rparr>)
   \<and> pqueues ((fresh 5)\<lparr>update_fun := 7, active_set := [False, False, True, False, False],
        splashes := [[2]], terminator := [NewJob 0]\<rparr>) = replicate 5 []"
proof -
  define s where "s = (fresh 5)\<lparr>update_fun := 7, active_set := [False, False, True, False, False],
        splashes := [[2]]\<rparr>"
  define s' where "s' = (fresh 5)\<lparr>update_fun := 7, active_set := [False, False, True, False, False],
        splashes := [[2]], terminator := [NewJob 0]\<rparr>"
  have h: "add_task chain5 (2, 7) 1 s = Some s'" unfolding s_def s'_def by code_simp
  have b: "bit_set s 2" unfolding s_def by code_simp
  have q: "\<not> in_queue s (vmap s ! 2) 2" unfolding s_def by code_simp
  have e: "pqueues s = replicate 5 []" unfolding s_def by code_simp
  from add_task_sets_bit_and_enqueues[OF h] have
    "pqueues s' = (if \<not> bit_set s 2 \<or> in_queue s (vmap s ! 2) 2
        then (pqueues s)[vmap s ! 2 := pq_insert_max (pqueues s ! (vmap s ! 2)) 2 1]
        else pqueues s)" by simp
  then have "pqueues s' = replicate 5 []" using b q e by simp
  then show ?thesis using h unfolding s_def s'_def by blast
qed

lemma forward_half_reverse_pass: "forward_half (reverse_pass fwd) = rev fwd"
proof (cases "length fwd > 1")
  case True
  then have "reverse_pass fwd = rev fwd @ tl fwd" by (simp add: reverse_pass_eq)
  moreover have "(length (rev fwd @ tl fwd) + 1) div 2 = length (rev fwd)" using True by simp
  ultimately show ?thesis unfolding forward_half_def by simp
next
  case False
  then have "fwd = [] \<or> (\<exists>x. fwd = [x])" by (cases fwd) auto
  then show ?thesis unfolding forward_half_def by (auto simp: reverse_pass_eq)
qed

lemma bfs_loop_skip:
  "w < splash_size st \<and> bq \<noteq> [] \<and> splash_size st < work g (hd bq) + w \<Longrightarrow>
     bfs_loop g sh splash w vis bq st = bfs_loop g sh splash w vis (tl bq) st"
  by (subst bfs_loop.simps) (simp add: Let_def)

lemma bfs_loop_full:
  "\<not> w < splash_size st \<Longrightarrow> bfs_loop g sh splash w vis bq st = Some (splash, st)"
  by (subst bfs_loop.simps) simp

text \<open>
  C4.  Let \<open>fwd\<close> be the splash that \<open>rebuild_splash\<close> has grown.  The forward half of the
  buffer is \<open>fwd\<close> reversed, and the work of its vertices sums to at most \<open>splash_size\<close> plus
  any bound \<open>m\<close> on the work of a single vertex of the splash; as soon as the search has added
  a vertex to the root, the sum is at most \<open>splash_size\<close>.  A vertex at the head of the search
  queue whose work would take the counter past \<open>splash_size\<close> is dropped from the search
  queue: the loop goes on with the same splash, the same counter and the same scheduler.
\<close>
theorem splash_work_bound:
  assumes "rebuild_splash g sh cpuid s = Some s'"
  shows "\<exists>fwd s1. grow_splash g sh cpuid s = Some (fwd, s1) \<and>
           forward_half (splashes s' ! cpuid) = rev fwd \<and>
           (\<forall>m. (\<forall>v \<in> set fwd. work g v \<le> m) \<longrightarrow>
                sum_list (map (work g) (forward_half (splashes s' ! cpuid))) \<le> splash_size s + m) \<and>
           (1 < length fwd \<longrightarrow> sum_list (map (work g) fwd) \<le> splash_size s) \<and>
           (\<forall>splash w vis bq st.
              w < splash_size st \<and> bq \<noteq> [] \<and> splash_size st < work g (hd bq) + w \<longrightarrow>
              bfs_loop g sh splash w vis bq st = bfs_loop g sh splash w vis (tl bq) st)"
proof -
  from rebuild_splash_grow[OF assms] obtain fwd s1 where
    g: "grow_splash g sh cpuid s = Some (fwd, s1)"
    and s': "s' = s1\<lparr>splashes := (splashes s1)[cpuid := reverse_pass fwd]\<rparr>" by blast
  have "cpuid < length (splashes s1)" using grow_splash_frame[OF g] by simp
  then have buf: "splashes s' ! cpuid = reverse_pass fwd" using s' by simp
  have half: "forward_half (splashes s' ! cpuid) = rev fwd"
    unfolding buf by (rule forward_half_reverse_pass)
  have total: "sum_list (map (work g) (rev fwd)) = sum_list (map (work g) fwd)"
    by (simp add: rev_map[symmetric] sum_list_rev)
  have grown: "1 < length fwd \<longrightarrow> sum_list (map (work g) fwd) \<le> splash_size s"
  proof
    assume l: "1 < length fwd"
    with grow_splash_root[OF g] obtain ext where
      e: "fwd = hd fwd # ext" "ext \<noteq> [] \<longrightarrow> work g (hd fwd) + sum_list (map (work g) ext) \<le> splash_size s"
      by auto
    have "ext \<noteq> []" using l e(1) by (metis One_nat_def length_Cons less_numeral_extra(4) list.size(3))
    then have "work g (hd fwd) + sum_list (map (work g) ext) \<le> splash_size s" using e(2) by simp
    moreover have "sum_list (map (work g) fwd) = work g (hd fwd) + sum_list (map (work g) ext)"
      by (subst e(1)) simp
    ultimately show "sum_list (map (work g) fwd) \<le> splash_size s" by simp
  qed
  have bound: "\<forall>m. (\<forall>v \<in> set fwd. work g v \<le> m) \<longrightarrow> sum_list (map (work g) fwd) \<le> splash_size s + m"
  proof (intro allI impI)
    fix m assume m: "\<forall>v \<in> set fwd. work g v \<le> m"
    show "sum_list (map (work g) fwd) \<le> splash_size s + m"
    proof (cases "1 < length fwd")
      case True
      then show ?thesis using grown by simp
    next
      case False
      then have "fwd = [] \<or> (\<exists>x. fwd = [x])" by (cases fwd) auto
      then show ?thesis using m by auto
    qed
  qed
  have skip: "\<forall>splash w vis bq st.
              w < splash_size st \<and> bq \<noteq> [] \<and> splash_size st < work g (hd bq) + w \<longrightarrow>
              bfs_loop g sh splash w vis bq st = bfs_loop g sh splash w vis (tl bq) st"
    using bfs_loop_skip by blast
  show ?thesis using g half bound grown skip unfolding half total by blast
qed

theorem splash_work_bound_witness:
  "rebuild_splash chain5_reversed no_shuffle 0
     ((fresh 5)\<lparr>update_fun := 7, pqueues := [[(0, 1)], [(1, 1)], [(2, 1)], [(3, 1)], [(4, 1)]],
        active_set := replicate 5 True\<rparr>)
   = Some ((fresh 5)\<lparr>update_fun := 7, active_set := replicate 5 True,
        splashes := [[4, 3, 2, 1, 0, 1, 2, 3, 4]], lastqid := (replicate 128 0)[0 := 1], rng := 5\<rparr>)
   \<and> forward_half [4, 3, 2, 1, 0, 1, 2, 3, 4] = rev [0, 1, 2, 3, 4]
   \<and> sum_list (map (work chain5_reversed) (forward_half [4, 3, 2, 1, 0, 1, 2, 3, 4])) \<le> 100 + 2"
proof -
  define s where "s = (fresh 5)\<lparr>update_fun := 7,
        pqueues := [[(0, 1)], [(1, 1)], [(2, 1)], [(3, 1)], [(4, 1)]], active_set := replicate 5 True\<rparr>"
  define s' where "s' = (fresh 5)\<lparr>update_fun := 7, active_set := replicate 5 True,
        splashes := [[4, 3, 2, 1, 0, 1, 2, 3, 4]], lastqid := (replicate 128 0)[0 := 1], rng := 5\<rparr>"
  define s1 where "s1 = (fresh 5)\<lparr>update_fun := 7, active_set := replicate 5 True,
        lastqid := (replicate 128 0)[0 := 1], rng := 5\<rparr>"
  have h: "rebuild_splash chain5_reversed no_shuffle 0 s = Some s'"
    unfolding s_def s'_def by code_simp
  have g: "grow_splash chain5_reversed no_shuffle 0 s = Some ([0, 1, 2, 3, 4], s1)"
    unfolding s_def s1_def by code_simp
  have b: "splashes s' ! 0 = [4, 3, 2, 1, 0, 1, 2, 3, 4]" unfolding s'_def by code_simp
  have z: "splash_size s = 100" unfolding s_def by code_simp
  have m: "\<forall>v \<in> set [0, 1, 2, 3, 4]. work chain5_reversed v \<le> 2" by code_simp
  from splash_work_bound[OF h] g
  have "forward_half (splashes s' ! 0) = rev [0, 1, 2, 3, 4] \<and>
        (\<forall>m. (\<forall>v \<in> set [0, 1, 2, 3, 4]. work chain5_reversed v \<le> m) \<longrightarrow>
           sum_list (map (work chain5_reversed) (forward_half (splashes s' ! 0))) \<le> splash_size s + m)"
    by auto
  then have "forward_half (splashes s' ! 0) = rev [0, 1, 2, 3, 4] \<and>
       sum_list (map (work chain5_reversed) (forward_half (splashes s' ! 0))) \<le> splash_size s + 2"
    using m by blast
  then show ?thesis using h unfolding b z unfolding s_def s'_def by blast
qed

text \<open>
  C9.  When the root that \<open>rebuild_splash\<close> pops has a priority greater than 1, the work
  counter starts at \<open>splash_size\<close>, the search loop ends at once whatever its queue holds, and
  \<open>rebuild_splash\<close> returns with the root alone in the buffer: no vertex is taken from a
  queue by the search and the buffer is not extended.
\<close>
theorem urgent_root_single:
  assumes "vec_at (splashes s) cpuid = Some buffer"
    and "vec_at (splash_index s) cpuid = Some (length buffer)"
    and "get_top cpuid (s\<lparr>splashes := (splashes s)[cpuid := []],
                           splash_index := (splash_index s)[cpuid := 0]\<rparr>)
           = Some (Some (root_vertex, root_priority), s0)"
    and "root_priority > 1"
  shows "(\<forall>vis bq st. bfs_loop g sh [root_vertex] (splash_size st) vis bq st = Some ([root_vertex], st)) \<and>
         grow_splash g sh cpuid s = Some ([root_vertex], s0\<lparr>rng := rng s0 + 1\<rparr>) \<and>
         (\<exists>s'. rebuild_splash g sh cpuid s = Some s' \<and> splashes s' ! cpuid = [root_vertex] \<and>
               splash_index s' ! cpuid = 0 \<and> pqueues s' = pqueues s0)"
proof -
  have stop: "\<forall>vis bq st. bfs_loop g sh [root_vertex] (splash_size st) vis bq st = Some ([root_vertex], st)"
    by (simp add: bfs_loop_full)
  have full: "bfs_loop g sh [root_vertex] (splash_size (s0\<lparr>rng := rng s0 + 1\<rparr>)) vis bq (s0\<lparr>rng := rng s0 + 1\<rparr>)
      = Some ([root_vertex], s0\<lparr>rng := rng s0 + 1\<rparr>)" for vis bq
    using stop by blast
  have g: "grow_splash g sh cpuid s = Some ([root_vertex], s0\<lparr>rng := rng s0 + 1\<rparr>)"
    unfolding grow_splash_def using assms full by (simp add: Let_def)
  have fr: "splashes s0 = (splashes s)[cpuid := []]" "splash_index s0 = (splash_index s)[cpuid := 0]"
    using get_top_frame[OF assms(3)] by simp_all
  have c: "cpuid < length (splashes s)" "cpuid < length (splash_index s)"
    using assms(1,2) by (simp_all add: vec_at_def split: if_splits)
  let ?s' = "s0\<lparr>rng := rng s0 + 1, splashes := (splashes s0)[cpuid := reverse_pass [root_vertex]]\<rparr>"
  have r: "rebuild_splash g sh cpuid s = Some ?s'"
    unfolding rebuild_splash_def g by simp
  have "splashes ?s' ! cpuid = [root_vertex]" using fr c by (simp add: reverse_pass_eq)
  moreover have "splash_index ?s' ! cpuid = 0" using fr c by simp
  moreover have "pqueues ?s' = pqueues s0" by simp
  ultimately show ?thesis using stop g r by blast
qed

theorem urgent_root_single_witness:
  "vec_at (splashes ((fresh 5)\<lparr>update_fun := 7, pqueues := [[(0, 3)], [(1, 1)], [], [], []],
        active_set := [True, True, False, False, False]\<rparr>)) 0 = Some []
   \<and> get_top 0 ((fresh 5)\<lparr>update_fun := 7, pqueues := [[(0, 3)], [(1, 1)], [], [], []],
        active_set := [True, True, False, False, False]\<rparr>)
      = Some (Some (0, 3), (fresh 5)\<lparr>update_fun := 7, pqueues := [[], [(1, 1)], [], [], []],
        active_set := [True, True, False, False, False], lastqid := (replicate 128 0)[0 := 1]\<rparr>)
   \<and> (3 :: real) > 1
   \<and> grow_splash chain5_reversed no_shuffle 0
        ((fresh 5)\<lparr>update_fun := 7, pqueues := [[(0, 3)], [(1, 1)], [], [], []],
           active_set := [True, True, False, False, False]\<rparr>)
      = Some ([0], (fresh 5)\<lparr>update_fun := 7, pqueues := [[], [(1, 1)], [], [], []],
           active_set := [True, True, False, False, False], lastqid := (replicate 128 0)[0 := 1],
           rng := 1\<rparr>)"
proof -
  define s where "s = (fresh 5)\<lparr>update_fun := 7, pqueues := [[(0, 3)], [(1, 1)], [], [], []],
        active_set := [True, True, False, False, False]\<rparr>"
  define s0 where "s0 = (fresh 5)\<lparr>update_fun := 7, pqueues := [[], [(1, 1)], [], [], []],
        active_set := [True, True, False, False, False], lastqid := (replicate 128 0)[0 := 1]\<rparr>"
  have a1: "vec_at (splashes s) 0 = Some []" unfolding s_def by code_simp
  have a2: "vec_at (splash_index s) 0 = Some (length ([] :: nat list))" unfolding s_def by code_simp
  have cl: "s\<lparr>splashes := (splashes s)[0 := []], splash_index := (splash_index s)[0 := 0]\<rparr> = s"
    unfolding s_def by code_simp
  have a3: "get_top 0 s = Some (Some (0, 3), s0)" unfolding s_def s0_def by code_simp
  have a3': "get_top 0 (s\<lparr>splashes := (splashes s)[0 := []], splash_index := (splash_index s)[0 := 0]\<rparr>)
      = Some (Some (0, 3), s0)" unfolding cl by (rule a3)
  have a4: "(3 :: real) > 1" by simp
  have e: "s0\<lparr>rng := rng s0 + 1\<rparr> = (fresh 5)\<lparr>update_fun := 7, pqueues := [[], [(1, 1)], [], [], []],
           active_set := [True, True, False, False, False], lastqid := (replicate 128 0)[0 := 1],
           rng := 1\<rparr>" unfolding s0_def by code_simp
  from urgent_root_single[OF a1 a2 a3' a4, of chain5_reversed no_shuffle]
  have "grow_splash chain5_reversed no_shuffle 0 s = Some ([0], s0\<lparr>rng := rng s0 + 1\<rparr>)" by blast
  then show ?thesis using a1 a3 a4 unfolding e unfolding s_def s0_def by blast
qed

section \<open>The invariants along runs\<close>

lemma advances_invariants:
  assumes "advances s s'" "confined s" "coverage s"
  shows "confined s' \<and> coverage s'"
proof -
  have p: "\<And>i v. in_queue s' i v \<Longrightarrow> in_queue s i v"
    using assms(1) pruned_in_queue unfolding advances_def by blast
  have vm: "vmap s' = vmap s" using assms(1) unfolding advances_def by blast
  have c: "confined s'" unfolding confined_iff vm using assms(2) p unfolding confined_iff by blast
  have "\<And>i v. in_queue s' i v \<Longrightarrow> bit_set s' v"
  proof (rule ccontr)
    fix i v assume q: "in_queue s' i v" and n: "\<not> bit_set s' v"
    have "in_queue s i v" using q by (rule p)
    then have b: "bit_set s v" and i: "vmap s ! v = i"
      using assms(2,3) unfolding confined_iff coverage_iff by blast+
    then have "\<not> in_queue s' (vmap s ! v) v" using assms(1) n unfolding advances_def by blast
    then show False using q i by simp
  qed
  then show ?thesis using c unfolding coverage_iff by blast
qed

lemma add_tasks_invariants:
  "add_tasks g vs func priority s = Some s' \<Longrightarrow> confined s \<Longrightarrow> coverage s \<Longrightarrow>
     confined s' \<and> coverage s' \<and> vmap s' = vmap s"
proof (induction vs arbitrary: s)
  case Nil
  then show ?case by simp
next
  case (Cons v vs)
  from Cons.prems(1) obtain s1 where
    a: "add_task g (v, func) priority s = Some s1" and r: "add_tasks g vs func priority s1 = Some s'"
    by (auto split: Option.bind_splits)
  have "confined s1" "coverage s1" "vmap s1 = vmap s"
    using add_task_confined[OF a Cons.prems(2)] add_task_coverage[OF a Cons.prems(3)] add_task_frame[OF a]
    by simp_all
  then show ?case using Cons.IH[OF r] by simp
qed

lemma invariants_bookkeeping:
  "confined (s\<lparr>update_fun := f\<rparr>) = confined s" "coverage (s\<lparr>update_fun := f\<rparr>) = coverage s"
  "confined (s\<lparr>splash_size := z\<rparr>) = confined s" "coverage (s\<lparr>splash_size := z\<rparr>) = coverage s"
  "confined (s\<lparr>aborted := a\<rparr>) = confined s" "coverage (s\<lparr>aborted := a\<rparr>) = coverage s"
  "confined (s\<lparr>terminator := t\<rparr>) = confined s" "coverage (s\<lparr>terminator := t\<rparr>) = coverage s"
  "confined (s\<lparr>splashes := sp, splash_index := si\<rparr>) = confined s"
  "coverage (s\<lparr>splashes := sp, splash_index := si\<rparr>) = coverage s"
  by (simp_all add: confined_def coverage_def bit_set_def)

lemma restart_loop_effect:
  "restart_loop is s = Some s' \<Longrightarrow>
     pqueues s' = pqueues s \<and> active_set s' = active_set s \<and> vmap s' = vmap s \<and>
     aborted s' = aborted s \<and> update_fun s' = update_fun s \<and> splash_size s' = splash_size s \<and>
     ncpus s' = ncpus s \<and> terminator s' = terminator s \<and>
     length (splashes s') = length (splashes s) \<and> length (splash_index s') = length (splash_index s) \<and>
     (\<forall>i \<in> set is. splashes s' ! i = [] \<and> splash_index s' ! i = 0) \<and>
     (\<forall>i. i \<notin> set is \<longrightarrow> splashes s' ! i = splashes s ! i \<and> splash_index s' ! i = splash_index s ! i)"
proof (induction "is" arbitrary: s)
  case Nil
  then show ?case by simp
next
  case (Cons i "is")
  let ?s1 = "s\<lparr>splashes := (splashes s)[i := []], splash_index := (splash_index s)[i := 0]\<rparr>"
  from Cons.prems have i: "i < length (splashes s)" "i < length (splash_index s)"
    and r: "restart_loop is ?s1 = Some s'"
    by (auto split: if_splits)
  note ih = Cons.IH[OF r]
  have fr: "pqueues s' = pqueues s \<and> active_set s' = active_set s \<and> vmap s' = vmap s \<and>
     aborted s' = aborted s \<and> update_fun s' = update_fun s \<and> splash_size s' = splash_size s \<and>
     ncpus s' = ncpus s \<and> terminator s' = terminator s \<and>
     length (splashes s') = length (splashes s) \<and> length (splash_index s') = length (splash_index s)"
    using ih by simp
  have z: "\<forall>j \<in> set (i # is). splashes s' ! j = [] \<and> splash_index s' ! j = 0"
  proof
    fix j assume j: "j \<in> set (i # is)"
    show "splashes s' ! j = [] \<and> splash_index s' ! j = 0"
    proof (cases "j \<in> set is")
      case True
      then show ?thesis using ih by blast
    next
      case False
      then have "j = i" using j by simp
      moreover have "splashes s' ! i = splashes ?s1 ! i \<and> splash_index s' ! i = splash_index ?s1 ! i"
        using ih False \<open>j = i\<close> by blast
      ultimately show ?thesis using i by simp
    qed
  qed
  have o: "\<forall>j. j \<notin> set (i # is) \<longrightarrow> splashes s' ! j = splashes s ! j \<and> splash_index s' ! j = splash_index s ! j"
  proof (intro allI impI)
    fix j assume j: "j \<notin> set (i # is)"
    then have "splashes s' ! j = splashes ?s1 ! j \<and> splash_index s' ! j = splash_index ?s1 ! j"
      using ih by simp
    then show "splashes s' ! j = splashes s ! j \<and> splash_index s' ! j = splash_index s ! j"
      using j by simp
  qed
  show ?case using fr z o by blast
qed

lemma restart_effect:
  assumes "restart s = Some s'"
  shows "pqueues s' = pqueues s \<and> active_set s' = active_set s \<and> vmap s' = vmap s \<and>
     \<not> aborted s' \<and> update_fun s' = update_fun s \<and> splash_size s' = splash_size s \<and>
     ncpus s' = ncpus s \<and> terminator s' = terminator s \<and>
     length (splashes s') = length (splashes s) \<and> length (splash_index s') = length (splash_index s) \<and>
     (\<forall>i < length (splashes s). splashes s' ! i = [] \<and> splash_index s' ! i = 0)"
proof -
  from assms obtain s1 where l: "restart_loop [0 ..< length (splashes s)] s = Some s1"
    and s': "s' = s1\<lparr>aborted := False\<rparr>"
    unfolding restart_def by (auto split: Option.bind_splits)
  note e = restart_loop_effect[OF l]
  have "\<forall>i < length (splashes s). splashes s1 ! i = [] \<and> splash_index s1 ! i = 0"
    using e by simp
  then show ?thesis using e unfolding s' by simp
qed

lemma start_loop_advances:
  "start_loop g sh is s = Some s' \<Longrightarrow> advances s s'"
proof (induction "is" arbitrary: s)
  case Nil
  then show ?case by (simp add: advances_refl)
next
  case (Cons i "is")
  from Cons.prems obtain s1 where a: "rebuild_splash g sh i s = Some s1"
    and r: "start_loop g sh is s1 = Some s'"
    by (auto split: Option.bind_splits)
  have "advances s s1" using a by (rule rebuild_splash_advances)
  moreover have "advances s1 s'" using r by (rule Cons.IH)
  ultimately show ?case by (rule advances_trans)
qed

lemma start_advances:
  assumes "start g sh s = Some s'"
  shows "advances s s'"
proof -
  from assms obtain s1 where l: "start_loop g sh [0 ..< ncpus s] s = Some s1"
    and s': "s' = s1\<lparr>terminator := terminator s1 @ [Reset]\<rparr>"
    unfolding start_def by (auto split: Option.bind_splits)
  have "advances s s1" using l by (rule start_loop_advances)
  moreover have "advances s1 s'" unfolding s' by (rule advances_bookkeeping)
  ultimately show ?thesis by (rule advances_trans)
qed

text \<open>Every call keeps the vertex map, shard confinement and active-set coverage.\<close>
lemma exec_invariants:
  assumes "exec g sh c s = Some (r, s')" "confined s" "coverage s"
  shows "confined s' \<and> coverage s' \<and> vmap s' = vmap s"
proof (cases c)
  case (AddTask task priority)
  then have a: "add_task g task priority s = Some s'" using assms(1) by auto
  show ?thesis
    using add_task_confined[OF a assms(2)] add_task_coverage[OF a assms(3)] add_task_frame[OF a]
    by simp
next
  case (AddTasks vs func priority)
  then have "add_tasks g vs func priority s = Some s'" using assms(1) by auto
  then show ?thesis using add_tasks_invariants assms(2,3) by blast
next
  case (AddTaskToAll func priority)
  then have a: "add_tasks g [0 ..< num_vertices g] func priority (s\<lparr>update_fun := func\<rparr>) = Some s'"
    using assms(1) by (auto simp: add_task_to_all_def)
  have "confined (s\<lparr>update_fun := func\<rparr>)" "coverage (s\<lparr>update_fun := func\<rparr>)"
    using assms(2,3) by (simp_all add: invariants_bookkeeping)
  then show ?thesis using add_tasks_invariants[OF a] by simp
next
  case (GetNextTask cpuid answers)
  then have "get_next_task g sh answers cpuid s = Some (r, s')" using assms(1) by simp
  then have a: "advances s s'" by (rule get_next_task_advances)
  then have "vmap s' = vmap s" unfolding advances_def by blast
  then show ?thesis using advances_invariants[OF a assms(2,3)] by simp
next
  case Start
  then have "start g sh s = Some s'" using assms(1) by auto
  then have a: "advances s s'" by (rule start_advances)
  then have "vmap s' = vmap s" unfolding advances_def by blast
  then show ?thesis using advances_invariants[OF a assms(2,3)] by simp
next
  case Abort
  then have "s' = s\<lparr>aborted := True\<rparr>" using assms(1) by (simp add: abort_def)
  then show ?thesis using assms(2,3) by (simp add: invariants_bookkeeping)
next
  case Restart
  then have "restart s = Some s'" using assms(1) by auto
  then have "pqueues s' = pqueues s" "active_set s' = active_set s" "vmap s' = vmap s"
    using restart_effect by blast+
  then show ?thesis using assms(2,3) by (simp add: confined_def coverage_def bit_set_def)
next
  case (SetSplashSize z)
  then have "s' = s\<lparr>splash_size := z\<rparr>" using assms(1) by (simp add: set_splash_size_def)
  then show ?thesis using assms(2,3) by (simp add: invariants_bookkeeping)
next
  case (SetUpdateFunction f)
  then have "s' = s\<lparr>update_fun := f\<rparr>" using assms(1) by (simp add: set_update_function_def)
  then show ?thesis using assms(2,3) by (simp add: invariants_bookkeeping)
qed

lemma constructed_invariants:
  assumes "splash_scheduler g n statics = Some s"
  shows "confined s \<and> coverage s \<and> vmap s = map (\<lambda>v. v mod (n * queue_multiple)) [0 ..< num_vertices g]"
proof -
  have "pqueues s = replicate (n * queue_multiple) []"
    "vmap s = map (\<lambda>v. v mod (n * queue_multiple)) [0 ..< num_vertices g]"
    using assms unfolding splash_scheduler_def by (auto split: if_splits)
  then show ?thesis by (simp add: confined_def coverage_def)
qed

lemma reachable_invariants:
  "reachable g sh n s \<Longrightarrow>
     confined s \<and> coverage s \<and> vmap s = map (\<lambda>v. v mod (n * queue_multiple)) [0 ..< num_vertices g]"
proof (induction rule: reachable.induct)
  case (constructed statics s)
  then show ?case using constructed_invariants by blast
next
  case (after_call s c r s')
  then show ?case using exec_invariants by metis
qed

lemma run_reachable:
  "reachable g sh n s \<Longrightarrow> run g sh cs s = Some (rs, s') \<Longrightarrow> reachable g sh n s'"
proof (induction cs arbitrary: s rs)
  case Nil
  then show ?case by simp
next
  case (Cons c cs)
  from Cons.prems(2) obtain r s1 rs1 where e: "exec g sh c s = Some (r, s1)"
    and r: "run g sh cs s1 = Some (rs1, s')"
    by (auto split: option.splits)
  have "reachable g sh n s1" using Cons.prems(1) e by (rule reachable.after_call)
  then show ?case using r by (rule Cons.IH)
qed

lemma add_tasks_other:
  "add_tasks g vs func priority s = Some s' \<Longrightarrow> v \<notin> set vs \<Longrightarrow>
     (bit_set s' v \<longleftrightarrow> bit_set s v) \<and> (\<forall>i. in_queue s' i v \<longleftrightarrow> in_queue s i v)"
proof (induction vs arbitrary: s)
  case Nil
  then show ?case by simp
next
  case (Cons u vs)
  from Cons.prems(1) obtain s1 where
    a: "add_task g (u, func) priority s = Some s1" and r: "add_tasks g vs func priority s1 = Some s'"
    by (auto split: Option.bind_splits)
  have "u \<noteq> v" "v \<notin> set vs" using Cons.prems(2) by auto
  then have "(bit_set s1 v \<longleftrightarrow> bit_set s v) \<and> (\<forall>i. in_queue s1 i v \<longleftrightarrow> in_queue s i v)"
    using add_task_bits[OF a, of v] add_task_queue[OF a, of _ v] by simp
  then show ?case using Cons.IH[OF r \<open>v \<notin> set vs\<close>] by simp
qed

lemma produced_None: "\<not> produced v None"
  by (simp add: produced_def)

text \<open>
  A call that does not submit \<open>v\<close> neither sets the bit of \<open>v\<close> nor puts \<open>v\<close> into a queue,
  and it produces \<open>v\<close> only by clearing the bit of \<open>v\<close>.
\<close>
lemma exec_without_submission:
  assumes "exec g sh c s = Some (r, s')" "\<not> submits g v c"
  shows "(bit_set s' v \<longrightarrow> bit_set s v) \<and> (\<forall>i. in_queue s' i v \<longrightarrow> in_queue s i v) \<and>
         (produced v r \<longrightarrow> bit_set s v \<and> \<not> bit_set s' v)"
proof (cases c)
  case (AddTask task priority)
  then have a: "add_task g task priority s = Some s'" and r: "r = None" using assms(1) by auto
  have "fst task \<noteq> v" using assms(2) AddTask by simp
  then show ?thesis
    using add_task_bits[OF a, of v] add_task_queue[OF a, of _ v] r by (simp add: produced_None)
next
  case (AddTasks vs func priority)
  then have a: "add_tasks g vs func priority s = Some s'" and r: "r = None" using assms(1) by auto
  have "v \<notin> set vs" using assms(2) AddTasks by simp
  then show ?thesis using add_tasks_other[OF a] r by (simp add: produced_None)
next
  case (AddTaskToAll func priority)
  then have a: "add_tasks g [0 ..< num_vertices g] func priority (s\<lparr>update_fun := func\<rparr>) = Some s'"
    and r: "r = None"
    using assms(1) by (auto simp: add_task_to_all_def)
  have "v \<notin> set [0 ..< num_vertices g]" using assms(2) AddTaskToAll by simp
  then have "(bit_set s' v \<longleftrightarrow> bit_set (s\<lparr>update_fun := func\<rparr>) v) \<and>
      (\<forall>i. in_queue s' i v \<longleftrightarrow> in_queue (s\<lparr>update_fun := func\<rparr>) i v)"
    using add_tasks_other[OF a] by blast
  then show ?thesis using r by (simp add: produced_None bit_set_def in_queue_def)
next
  case (GetNextTask cpuid answers)
  then have gn: "get_next_task g sh answers cpuid s = Some (r, s')" using assms(1) by simp
  have a: "advances s s'" using gn by (rule get_next_task_advances)
  have b: "bit_set s' v \<longrightarrow> bit_set s v" using a unfolding advances_def by blast
  have q: "\<forall>i. in_queue s' i v \<longrightarrow> in_queue s i v"
    using a pruned_in_queue unfolding advances_def by blast
  have "produced v r \<longrightarrow> bit_set s v \<and> \<not> bit_set s' v"
  proof
    assume "produced v r"
    then obtain t where "r = Some (NEWTASK t)" "fst t = v"
      unfolding produced_def by (auto split: option.splits sched_status.splits)
    then show "bit_set s v \<and> \<not> bit_set s' v" using get_next_task_result[OF gn] by blast
  qed
  then show ?thesis using b q by blast
next
  case Start
  then have "start g sh s = Some s'" and r: "r = None" using assms(1) by auto
  then have a: "advances s s'" using start_advances by blast
  have b: "bit_set s' v \<longrightarrow> bit_set s v" using a unfolding advances_def by blast
  have q: "\<forall>i. in_queue s' i v \<longrightarrow> in_queue s i v"
    using a pruned_in_queue unfolding advances_def by blast
  show ?thesis using b q r by (simp add: produced_None)
next
  case Abort
  then have "s' = s\<lparr>aborted := True\<rparr>" "r = None" using assms(1) by (simp_all add: abort_def)
  then show ?thesis by (simp add: produced_None bit_set_def in_queue_def)
next
  case Restart
  then have "restart s = Some s'" and r: "r = None" using assms(1) by auto
  then have "pqueues s' = pqueues s" "active_set s' = active_set s"
    using restart_effect by blast+
  then show ?thesis using r by (simp add: produced_None bit_set_def in_queue_def)
next
  case (SetSplashSize z)
  then have "s' = s\<lparr>splash_size := z\<rparr>" "r = None" using assms(1) by (simp_all add: set_splash_size_def)
  then show ?thesis by (simp add: produced_None bit_set_def in_queue_def)
next
  case (SetUpdateFunction f)
  then have "s' = s\<lparr>update_fun := f\<rparr>" "r = None" using assms(1) by (simp_all add: set_update_function_def)
  then show ?thesis by (simp add: produced_None bit_set_def in_queue_def)
qed

lemma run_without_submission:
  assumes "run g sh cs s = Some (rs, s')" "\<forall>c \<in> set cs. \<not> submits g v c"
  shows "(bit_set s' v \<longrightarrow> bit_set s v) \<and> (\<forall>i. in_queue s' i v \<longrightarrow> in_queue s i v) \<and>
         (\<not> bit_set s v \<longrightarrow> filter (produced v) rs = [])"
  using assms
proof (induction cs arbitrary: s rs)
  case Nil
  then show ?case by simp
next
  case (Cons c cs)
  from Cons.prems(1) obtain r s1 rs1 where e: "exec g sh c s = Some (r, s1)"
    and r: "run g sh cs s1 = Some (rs1, s')" and rs: "rs = r # rs1"
    by (auto split: option.splits)
  have nc: "\<not> submits g v c" and ncs: "\<forall>c \<in> set cs. \<not> submits g v c" using Cons.prems(2) by simp_all
  note one = exec_without_submission[OF e nc] and ih = Cons.IH[OF r ncs]
  show ?case using one ih unfolding rs by auto
qed

lemma run_at_most_once:
  assumes "run g sh cs s = Some (rs, s')" "\<forall>c \<in> set cs. \<not> submits g v c"
  shows "length (filter (produced v) rs) \<le> 1"
  using assms
proof (induction cs arbitrary: s rs)
  case Nil
  then show ?case by simp
next
  case (Cons c cs)
  from Cons.prems(1) obtain r s1 rs1 where e: "exec g sh c s = Some (r, s1)"
    and r: "run g sh cs s1 = Some (rs1, s')" and rs: "rs = r # rs1"
    by (auto split: option.splits)
  have nc: "\<not> submits g v c" and ncs: "\<forall>c \<in> set cs. \<not> submits g v c" using Cons.prems(2) by simp_all
  show ?case
  proof (cases "produced v r")
    case True
    then have "\<not> bit_set s1 v" using exec_without_submission[OF e nc] by blast
    then have "filter (produced v) rs1 = []" using run_without_submission[OF r ncs] by blast
    then show ?thesis unfolding rs by simp
  next
    case False
    then show ?thesis using Cons.IH[OF r ncs] unfolding rs by simp
  qed
qed

section \<open>Claims about runs\<close>

lemma clear_and_produce_twice:
  assumes "clear_and_produce v s1 = Some (t, s2)"
  shows "clear_and_produce v s2 = Some (None, s2)"
proof -
  note e = clear_and_produce_effect[OF assms]
  have l: "v < length (active_set s2)" and b: "\<not> active_set s2 ! v" using e by simp_all
  then have "(active_set s2)[v := False] = active_set s2" by (metis list_update_id)
  then show ?thesis unfolding clear_and_produce_def bitset_clear_bit_def using l b by simp
qed

text \<open>
  C1.  In a run of calls none of which submits \<open>v\<close>, at most one call of \<open>get_next_task\<close>
  answers with a task for \<open>v\<close>.  The step that clears the bit of \<open>v\<close> produces no task when
  it is made a second time: the bit is clear, as at the second place of \<open>v\<close> in a buffer.
\<close>
theorem at_most_once_between_submissions:
  assumes "run g sh cs s = Some (rs, s')"
    and "\<forall>c \<in> set cs. \<not> submits g v c"
  shows "length (filter (produced v) rs) \<le> 1 \<and>
         (\<forall>s1 t s2. clear_and_produce v s1 = Some (t, s2) \<longrightarrow> clear_and_produce v s2 = Some (None, s2))"
proof -
  have "length (filter (produced v) rs) \<le> 1" using assms by (rule run_at_most_once)
  moreover have "\<forall>s1 t s2. clear_and_produce v s1 = Some (t, s2) \<longrightarrow> clear_and_produce v s2 = Some (None, s2)"
    using clear_and_produce_twice by blast
  ultimately show ?thesis by blast
qed

theorem at_most_once_between_submissions_witness:
  "run chain5_reversed no_shuffle (replicate 7 (GetNextTask 0 [True])) submitted5
     = Some ([Some (NEWTASK (4, 7)), Some (NEWTASK (3, 7)), Some (NEWTASK (2, 7)),
              Some (NEWTASK (1, 7)), Some (NEWTASK (0, 7)), Some COMPLETE, Some COMPLETE],
             (fresh 5)\<lparr>update_fun := 7,
               terminator := replicate 5 (NewJob 0) @ [BeginSleep 0, EndSleep 0, BeginSleep 0, EndSleep 0],
               rng := 5\<rparr>)
   \<and> length (filter (produced 1)
        [Some (NEWTASK (4, 7)), Some (NEWTASK (3, 7)), Some (NEWTASK (2, 7)),
         Some (NEWTASK (1, 7)), Some (NEWTASK (0, 7)), Some COMPLETE, Some COMPLETE]) \<le> 1"
proof -
  define rs where "rs = [Some (NEWTASK (4, 7)), Some (NEWTASK (3, 7)), Some (NEWTASK (2, 7)),
              Some (NEWTASK (1, 7)), Some (NEWTASK (0, 7)), Some COMPLETE, Some COMPLETE]"
  define s' where "s' = (fresh 5)\<lparr>update_fun := 7,
               terminator := replicate 5 (NewJob 0) @ [BeginSleep 0, EndSleep 0, BeginSleep 0, EndSleep 0],
               rng := 5\<rparr>"
  have h: "run chain5_reversed no_shuffle (replicate 7 (GetNextTask 0 [True])) submitted5 = Some (rs, s')"
    unfolding rs_def s'_def by code_simp
  have n: "\<forall>c \<in> set (replicate 7 (GetNextTask 0 [True])). \<not> submits chain5_reversed 1 c"
    by simp
  from at_most_once_between_submissions[OF h n]
  have "length (filter (produced 1) rs) \<le> 1" by blast
  then show ?thesis using h unfolding rs_def s'_def by blast
qed

text \<open>
  C8.  In every state that a run reaches from the scheduler constructed for \<open>n\<close> workers, the
  vertex map is the one of the constructor, \<open>vmap[v] = v mod (n * 5)\<close>; a vertex that is in
  a queue is a vertex of the graph and the queue is the one of its shard; and after any
  further call every vertex in a queue is again in the queue \<open>vmap[v]\<close> only.
\<close>
theorem shard_confinement:
  assumes "reachable g sh n s"
  shows "vmap s = map (\<lambda>v. v mod (n * queue_multiple)) [0 ..< num_vertices g] \<and>
         (\<forall>i v. in_queue s i v \<longrightarrow>
            v < num_vertices g \<and> i = vmap s ! v \<and> i = v mod (n * queue_multiple)) \<and>
         (\<forall>c r s' i v. exec g sh c s = Some (r, s') \<and> in_queue s' i v \<longrightarrow>
            vmap s' = vmap s \<and> i = vmap s ! v)"
proof -
  note inv = reachable_invariants[OF assms]
  have vm: "vmap s = map (\<lambda>v. v mod (n * queue_multiple)) [0 ..< num_vertices g]" using inv by blast
  have here: "\<forall>i v. in_queue s i v \<longrightarrow>
            v < num_vertices g \<and> i = vmap s ! v \<and> i = v mod (n * queue_multiple)"
  proof (intro allI impI)
    fix i v assume "in_queue s i v"
    then have v: "v < length (vmap s)" and i: "vmap s ! v = i"
      using inv unfolding confined_iff by blast+
    have l: "v < num_vertices g" using v unfolding vm by simp
    then have "vmap s ! v = v mod (n * queue_multiple)" unfolding vm by simp
    then show "v < num_vertices g \<and> i = vmap s ! v \<and> i = v mod (n * queue_multiple)"
      using l i by simp
  qed
  have later: "\<forall>c r s' i v. exec g sh c s = Some (r, s') \<and> in_queue s' i v \<longrightarrow>
            vmap s' = vmap s \<and> i = vmap s ! v"
  proof (intro allI impI)
    fix c r s' i v assume a: "exec g sh c s = Some (r, s') \<and> in_queue s' i v"
    then have "confined s' \<and> coverage s' \<and> vmap s' = vmap s"
      using exec_invariants inv by blast
    then show "vmap s' = vmap s \<and> i = vmap s ! v" using a unfolding confined_iff by metis
  qed
  show ?thesis using vm here later by blast
qed

theorem shard_confinement_witness:
  "reachable chain5 no_shuffle 1 submitted5 \<and> vmap submitted5 = [0, 1, 2, 3, 4] \<and>
   in_queue submitted5 3 3"
proof -
  have c: "splash_scheduler chain5 1 (replicate 128 0) = Some (fresh 5)" by code_simp
  have r: "run chain5 no_shuffle [AddTaskToAll 7 1] (fresh 5) = Some ([None], submitted5)" by code_simp
  have h: "reachable chain5 no_shuffle 1 submitted5"
    using reachable.constructed[OF length_replicate c] r by (rule run_reachable)
  have q: "in_queue submitted5 3 3" by code_simp
  have m: "map (\<lambda>v. v mod (1 * queue_multiple)) [0 ..< num_vertices chain5] = [0, 1, 2, 3, 4]"
    by code_simp
  from shard_confinement[OF h] have "vmap submitted5 = [0, 1, 2, 3, 4]" unfolding m by blast
  then show ?thesis using h q by blast
qed

section \<open>What one step changes\<close>

lemma jump_fields [simp]:
  "sched (jump c w pc) = sched c" "queuelocks (jump c w pc) = queuelocks c"
  "pcs (jump c w pc) = (pcs c)[w := pc]"
  by (simp_all add: jump_def)

lemma after_rebuild_effect:
  assumes "after_rebuild w c = Some (r, c')"
  shows "sched c' = sched c \<and> queuelocks c' = queuelocks c \<and>
     (\<exists>pc. pcs c' = (pcs c)[w := pc] \<and> (pc = Outside \<or> pc = Hand)) \<and> (r = None \<or> r = Some WAITING)"
  using assms unfolding after_rebuild_def by (auto split: Option.bind_splits if_splits)

lemma top_step_effect:
  assumes "top_step w c = Some (r, c')"
  shows "queuelocks c' = queuelocks c \<and>
     (\<exists>pc. pcs c' = (pcs c)[w := pc] \<and> (pc = Outside \<or> pc = Hand \<or> pc = Search 0)) \<and>
     (r = None \<or> r = Some WAITING) \<and>
     pqueues (sched c') = pqueues (sched c) \<and> active_set (sched c') = active_set (sched c) \<and>
     vmap (sched c') = vmap (sched c)"
  using assms unfolding top_step_def by (auto simp: Let_def split: Option.bind_splits if_splits)

lemma search_step_effect:
  assumes "search_step g sh w i c = Some (r, c')"
  shows "queuelocks c' = queuelocks c \<and>
     (\<exists>pc. pcs c' = (pcs c)[w := pc] \<and> (\<forall>v. pc \<noteq> Clear v)) \<and>
     (r = None \<or> r = Some WAITING) \<and>
     pruned (pqueues (sched c)) (pqueues (sched c')) \<and> active_set (sched c') = active_set (sched c) \<and>
     vmap (sched c') = vmap (sched c)"
proof (cases "i < queue_multiple")
  case False
  then obtain c1 where c1: "after_rebuild w c1 = Some (r, c')" "queuelocks c1 = queuelocks c"
    "pcs c1 = pcs c" "pqueues (sched c1) = pqueues (sched c)" "active_set (sched c1) = active_set (sched c)"
    "vmap (sched c1) = vmap (sched c)"
    using assms unfolding search_step_def by (auto simp: Let_def split: if_splits)
  from after_rebuild_effect[OF c1(1)] show ?thesis using c1(2-6) by (auto simp: pruned_refl)
next
  case True
  from assms True obtain lastq q where
    lq: "vec_at (lastqid (sched c)) w = Some lastq"
    and q: "vec_at (pqueues (sched c)) (w * queue_multiple + (i + lastq) mod queue_multiple) = Some q"
    unfolding search_step_def by (auto simp: Let_def split: Option.bind_splits if_splits)
  show ?thesis
  proof (cases "pq_empty q")
    case e: True
    then have "r = None \<and> c' = jump c w (Search (i + 1))"
      using assms True lq q unfolding search_step_def by (auto simp: Let_def split: if_splits)
    then show ?thesis by (auto simp: pruned_refl)
  next
    case ne: False
    have p: "pruned (pqueues (sched c))
        ((pqueues (sched c))[w * queue_multiple + (i + lastq) mod queue_multiple := pq_pop q])"
      unfolding pq_pop_def using q by (rule pruned_update)
    show ?thesis
      using assms True lq q ne p unfolding search_step_def
      by (auto simp: Let_def split: Option.bind_splits if_splits prod.splits)
  qed
qed

lemma grow_step_effect:
  assumes "grow_step g sh w wk vis bq c = Some (r, c')"
  shows "queuelocks c' = queuelocks c \<and>
     (\<exists>pc. pcs c' = (pcs c)[w := pc] \<and> (\<forall>v. pc \<noteq> Clear v)) \<and>
     (r = None \<or> r = Some WAITING) \<and>
     pruned (pqueues (sched c)) (pqueues (sched c')) \<and> active_set (sched c') = active_set (sched c) \<and>
     vmap (sched c') = vmap (sched c)"
proof (cases "wk < splash_size (sched c) \<and> bq \<noteq> []")
  case False
  then obtain c1 where c1: "after_rebuild w c1 = Some (r, c')" "queuelocks c1 = queuelocks c"
    "pcs c1 = pcs c" "pqueues (sched c1) = pqueues (sched c)" "active_set (sched c1) = active_set (sched c)"
    "vmap (sched c1) = vmap (sched c)"
    using assms unfolding grow_step_def by (auto simp: Let_def split: Option.bind_splits if_splits)
  from after_rebuild_effect[OF c1(1)] show ?thesis using c1(2-6) by (auto simp: pruned_refl)
next
  case go: True
  show ?thesis
  proof (cases "work g (hd bq) + wk > splash_size (sched c)")
    case True
    then have "r = None \<and> c' = jump c w (Grow wk vis (tl bq))"
      using assms go unfolding grow_step_def by (auto simp: Let_def)
    then show ?thesis by (auto simp: pruned_refl)
  next
    case False
    from assms go False obtain qid q where
      qid: "vec_at (vmap (sched c)) (hd bq) = Some qid"
      and q: "vec_at (pqueues (sched c)) qid = Some q"
      unfolding grow_step_def by (auto simp: Let_def split: Option.bind_splits if_splits)
    have p: "pruned (pqueues (sched c)) ((pqueues (sched c))[qid := snd (pq_remove q (hd bq))])"
      unfolding pq_remove_def snd_conv using q by (rule pruned_update)
    show ?thesis
      using assms go False qid q p unfolding grow_step_def
      by (auto simp: Let_def split: Option.bind_splits if_splits prod.splits)
  qed
qed

lemma hand_step_effect:
  assumes "hand_step w c = Some (r, c')"
  shows "queuelocks c' = queuelocks c \<and> r = None \<and>
     vmap (sched c') = vmap (sched c) \<and> active_set (sched c') = active_set (sched c) \<and>
     (pcs c' = (pcs c)[w := Top] \<and> pqueues (sched c') = pqueues (sched c) \<or>
      (\<exists>v. pcs c' = (pcs c)[w := Clear v] \<and> v < length (vmap (sched c)) \<and>
            lock_free c (vmap (sched c) ! v) \<and> vmap (sched c) ! v < length (pqueues (sched c)) \<and>
            pqueues (sched c') = (pqueues (sched c))[vmap (sched c) ! v :=
               filter (\<lambda>kp. fst kp \<noteq> v) (pqueues (sched c) ! (vmap (sched c) ! v))]))"
proof -
  from assms obtain index splash where
    ix: "vec_at (splash_index (sched c)) w = Some index" and sp: "vec_at (splashes (sched c)) w = Some splash"
    unfolding hand_step_def by (auto simp: Let_def split: Option.bind_splits)
  show ?thesis
  proof (cases "index < length splash")
    case False
    then have "r = None \<and> c' = jump c w Top"
      using assms ix sp unfolding hand_step_def by (auto simp: Let_def)
    then show ?thesis by auto
  next
    case True
    with assms ix sp obtain qid s' where
      qid: "vec_at (vmap (sched c)) (splash ! index) = Some qid" and lf: "lock_free c qid"
      and tk: "take_from_splash (splash ! index) w (sched c) = Some s'"
      and c': "r = None" "c' = (jump c w (Clear (splash ! index)))\<lparr>sched := s'\<rparr>"
      unfolding hand_step_def by (auto simp: Let_def split: Option.bind_splits if_splits)
    note e = take_from_splash_effect[OF tk]
    have s': "vmap s' = vmap (sched c)" "active_set s' = active_set (sched c)"
      "pqueues s' = (pqueues (sched c))[vmap (sched c) ! (splash ! index) :=
               filter (\<lambda>kp. fst kp \<noteq> splash ! index) (pqueues (sched c) ! (vmap (sched c) ! (splash ! index)))]"
      using e by auto
    have "qid = vmap (sched c) ! (splash ! index)" using qid by (auto simp: vec_at_def split: if_splits)
    then show ?thesis using c' s' lf e by auto
  qed
qed

lemma clear_step_effect:
  assumes "clear_step v w c = Some (r, c')"
  shows "queuelocks c' = queuelocks c \<and> vmap (sched c') = vmap (sched c) \<and>
     pqueues (sched c') = pqueues (sched c) \<and> v < length (active_set (sched c)) \<and>
     active_set (sched c') = (active_set (sched c))[v := False] \<and>
     (if active_set (sched c) ! v
      then r = Some (NEWTASK (v, update_fun (sched c))) \<and> pcs c' = (pcs c)[w := Outside]
      else r = None \<and> pcs c' = (pcs c)[w := Hand])"
proof -
  from assms obtain task s' where cp: "clear_and_produce v (sched c) = Some (task, s')"
    unfolding clear_step_def by (auto split: Option.bind_splits)
  note e = clear_and_produce_effect[OF cp]
  have s': "vmap s' = vmap (sched c)" "pqueues s' = pqueues (sched c)"
    "active_set s' = (active_set (sched c))[v := False]" using e by auto
  show ?thesis
  proof (cases "active_set (sched c) ! v")
    case True
    then have "task = Some (v, update_fun (sched c))" using e by simp
    then have "r = Some (NEWTASK (v, update_fun (sched c))) \<and> c' = (jump c w Outside)\<lparr>sched := s'\<rparr>"
      using assms cp unfolding clear_step_def by simp
    then show ?thesis using True s' e by simp
  next
    case False
    then have "task = None" using e by simp
    then have "r = None \<and> c' = (jump c w Hand)\<lparr>sched := s'\<rparr>"
      using assms cp unfolding clear_step_def by simp
    then show ?thesis using False s' e by simp
  qed
qed

lemma worker_step_effect:
  assumes "worker_step g sh w c = Some (r, c')"
  shows "queuelocks c' = queuelocks c \<and> vmap (sched c') = vmap (sched c) \<and> w < length (pcs c) \<and>
     (\<exists>pc. pcs c' = (pcs c)[w := pc]) \<and> pruned (pqueues (sched c)) (pqueues (sched c')) \<and>
     ((\<forall>v. pcs c ! w \<noteq> Clear v) \<longrightarrow>
        active_set (sched c') = active_set (sched c) \<and> (r = None \<or> r = Some WAITING)) \<and>
     (\<forall>v. pcs c ! w = Clear v \<longrightarrow>
        pqueues (sched c') = pqueues (sched c) \<and> v < length (active_set (sched c)) \<and>
        active_set (sched c') = (active_set (sched c))[v := False] \<and>
        (\<forall>u. pcs c' ! w \<noteq> Clear u) \<and>
        (if active_set (sched c) ! v then r = Some (NEWTASK (v, update_fun (sched c))) else r = None)) \<and>
     (\<forall>v. pcs c' ! w = Clear v \<longrightarrow>
        v < length (vmap (sched c)) \<and> lock_free c (vmap (sched c) ! v) \<and>
        vmap (sched c) ! v < length (pqueues (sched c)) \<and>
        pqueues (sched c') = (pqueues (sched c))[vmap (sched c) ! v :=
           filter (\<lambda>kp. fst kp \<noteq> v) (pqueues (sched c) ! (vmap (sched c) ! v))])"
proof -
  from assms obtain pc where pc: "vec_at (pcs c) w = Some pc"
    unfolding worker_step_def by (auto split: Option.bind_splits)
  then have w: "w < length (pcs c)" "pcs c ! w = pc" by (auto simp: vec_at_def split: if_splits)
  show ?thesis
  proof (cases pc)
    case Outside
    then have "r = None \<and> c' = jump c w Top"
      using assms pc unfolding worker_step_def by (auto split: if_splits)
    then show ?thesis using w Outside by (auto simp: pruned_refl)
  next
    case Top
    then have "top_step w c = Some (r, c')" using assms pc unfolding worker_step_def by simp
    from top_step_effect[OF this] show ?thesis using w Top by (auto simp: pruned_refl)
  next
    case (Search i)
    then have "search_step g sh w i c = Some (r, c')" using assms pc unfolding worker_step_def by simp
    from search_step_effect[OF this] show ?thesis using w Search by auto
  next
    case (Grow wk vis bq)
    then have "grow_step g sh w wk vis bq c = Some (r, c')" using assms pc unfolding worker_step_def by simp
    from grow_step_effect[OF this] show ?thesis using w Grow by auto
  next
    case Hand
    then have "hand_step w c = Some (r, c')" using assms pc unfolding worker_step_def by simp
    from hand_step_effect[OF this] have e: "queuelocks c' = queuelocks c" "r = None"
     "vmap (sched c') = vmap (sched c)" "active_set (sched c') = active_set (sched c)"
     "pcs c' = (pcs c)[w := Top] \<and> pqueues (sched c') = pqueues (sched c) \<or>
      (\<exists>v. pcs c' = (pcs c)[w := Clear v] \<and> v < length (vmap (sched c)) \<and>
            lock_free c (vmap (sched c) ! v) \<and> vmap (sched c) ! v < length (pqueues (sched c)) \<and>
            pqueues (sched c') = (pqueues (sched c))[vmap (sched c) ! v :=
               filter (\<lambda>kp. fst kp \<noteq> v) (pqueues (sched c) ! (vmap (sched c) ! v))])"
      by blast+
    from e(5) show ?thesis
    proof
      assume "pcs c' = (pcs c)[w := Top] \<and> pqueues (sched c') = pqueues (sched c)"
      then show ?thesis using e(1-4) w Hand by (auto simp: pruned_refl)
    next
      assume "\<exists>v. pcs c' = (pcs c)[w := Clear v] \<and> v < length (vmap (sched c)) \<and>
            lock_free c (vmap (sched c) ! v) \<and> vmap (sched c) ! v < length (pqueues (sched c)) \<and>
            pqueues (sched c') = (pqueues (sched c))[vmap (sched c) ! v :=
               filter (\<lambda>kp. fst kp \<noteq> v) (pqueues (sched c) ! (vmap (sched c) ! v))]"
      then obtain v where v: "pcs c' = (pcs c)[w := Clear v]" "v < length (vmap (sched c))"
        "lock_free c (vmap (sched c) ! v)" "vmap (sched c) ! v < length (pqueues (sched c))"
        "pqueues (sched c') = (pqueues (sched c))[vmap (sched c) ! v :=
               filter (\<lambda>kp. fst kp \<noteq> v) (pqueues (sched c) ! (vmap (sched c) ! v))]" by blast
      have "vec_at (pqueues (sched c)) (vmap (sched c) ! v) = Some (pqueues (sched c) ! (vmap (sched c) ! v))"
        using v(4) by (simp add: vec_at_def)
      then have "pruned (pqueues (sched c)) (pqueues (sched c'))"
        unfolding v(5) by (rule pruned_update)
      then show ?thesis using e(1-4) v w Hand by auto
    qed
  next
    case (Clear v)
    then have "clear_step v w c = Some (r, c')" using assms pc unfolding worker_step_def by simp
    from clear_step_effect[OF this] show ?thesis using w Clear
      by (auto simp: pruned_refl split: if_splits)
  qed
qed

lemma add_task_mark_effect:
  assumes "add_task_mark g task priority c = Some c'"
  shows "snd task = update_fun (sched c) \<and> fst task < num_vertices g \<and>
     fst task < length (vmap (sched c)) \<and> fst task < length (active_set (sched c)) \<and>
     lock_free c (vmap (sched c) ! fst task) \<and> pcs c' = pcs c \<and>
     vmap (sched c') = vmap (sched c) \<and> pqueues (sched c') = pqueues (sched c) \<and>
     active_set (sched c') = (active_set (sched c))[fst task := True] \<and>
     queuelocks c' = (queuelocks c)[vmap (sched c) ! fst task :=
        Some (task, priority, active_set (sched c) ! fst task)]"
  using assms unfolding add_task_mark_def bitset_set_bit_def
  by (auto simp: Let_def vec_at_def split: Option.bind_splits if_splits)

lemma add_task_enqueue_effect:
  assumes "add_task_enqueue i c = Some c'"
  shows "\<exists>task priority already_present.
     vec_at (queuelocks c) i = Some (Some (task, priority, already_present)) \<and>
     i < length (pqueues (sched c)) \<and> pcs c' = pcs c \<and> queuelocks c' = (queuelocks c)[i := None] \<and>
     vmap (sched c') = vmap (sched c) \<and> active_set (sched c') = active_set (sched c) \<and>
     pqueues (sched c') =
       (if \<not> already_present \<or> pq_contains (pqueues (sched c) ! i) (fst task)
        then (pqueues (sched c))[i := pq_insert_max (pqueues (sched c) ! i) (fst task) priority]
        else pqueues (sched c))"
proof -
  from assms obtain task priority already_present where
    h: "vec_at (queuelocks c) i = Some (Some (task, priority, already_present))"
    unfolding add_task_enqueue_def by (auto split: Option.bind_splits)
  from assms h obtain q where q: "vec_at (pqueues (sched c)) i = Some q"
    unfolding add_task_enqueue_def by (auto simp: Let_def split: Option.bind_splits)
  then have i: "i < length (pqueues (sched c))" "q = pqueues (sched c) ! i"
    by (auto simp: vec_at_def split: if_splits)
  have "pcs c' = pcs c \<and> queuelocks c' = (queuelocks c)[i := None] \<and>
     vmap (sched c') = vmap (sched c) \<and> active_set (sched c') = active_set (sched c) \<and>
     pqueues (sched c') =
       (if \<not> already_present \<or> pq_contains (pqueues (sched c) ! i) (fst task)
        then (pqueues (sched c))[i := pq_insert_max (pqueues (sched c) ! i) (fst task) priority]
        else pqueues (sched c))"
    using assms h q i(2) unfolding add_task_enqueue_def
    by (auto simp: Let_def split: if_splits)
  then show ?thesis using h i(1) by blast
qed

lemma start_loop_bits:
  "start_loop g sh is s = Some s' \<Longrightarrow> active_set s' = active_set s"
proof (induction "is" arbitrary: s)
  case Nil
  then show ?case by simp
next
  case (Cons i "is")
  from Cons.prems obtain s1 where a: "rebuild_splash g sh i s = Some s1"
    and r: "start_loop g sh is s1 = Some s'"
    by (auto split: Option.bind_splits)
  show ?case using rebuild_splash_frame[OF a] Cons.IH[OF r] by simp
qed

lemma whole_effect:
  assumes "cstep g sh (Whole call) c = Some (r, c')"
  shows "pcs c' = pcs c \<and> queuelocks c' = queuelocks c \<and> vmap (sched c') = vmap (sched c) \<and>
     (pqueues (sched c') = pqueues (sched c) \<and> active_set (sched c') = active_set (sched c) \<or>
      advances (sched c) (sched c') \<and> active_set (sched c') = active_set (sched c) \<and>
      (\<forall>pc \<in> set (pcs c). pc = Outside) \<and> (\<forall>l \<in> set (queuelocks c). l = None))"
proof -
  from assms have w: "whole c call" and e: "exec g sh call (sched c) = Some (r, sched c')"
    and f: "pcs c' = pcs c" "queuelocks c' = queuelocks c"
    by (auto split: if_splits)
  show ?thesis
  proof (cases call)
    case Start
    then have st: "start g sh (sched c) = Some (sched c')" using e by auto
    from st obtain s1 where l: "start_loop g sh [0 ..< ncpus (sched c)] (sched c) = Some s1"
      and s': "sched c' = s1\<lparr>terminator := terminator s1 @ [Reset]\<rparr>"
      unfolding start_def by (auto split: Option.bind_splits)
    have bits: "active_set s1 = active_set (sched c)" using l by (rule start_loop_bits)
    have "advances (sched c) (sched c')" using st by (rule start_advances)
    then show ?thesis using w f Start bits s' by (auto simp: advances_def list_all_iff)
  next
    case Abort
    then have "sched c' = abort (sched c)" using e by auto
    then show ?thesis using f by (simp add: abort_def)
  next
    case Restart
    then have "restart (sched c) = Some (sched c')" using e by auto
    from restart_effect[OF this] show ?thesis using f by simp
  next
    case (SetSplashSize sz)
    then have "sched c' = set_splash_size sz (sched c)" using e by auto
    then show ?thesis using f by (simp add: set_splash_size_def)
  next
    case (SetUpdateFunction func)
    then have "sched c' = set_update_function func (sched c)" using e by auto
    then show ?thesis using f by (simp add: set_update_function_def)
  qed (use w in simp_all)
qed

section \<open>Invariants of interleaved executions\<close>

lemma in_queue_same: "pqueues s' = pqueues s \<Longrightarrow> in_queue s' i v = in_queue s i v"
  by (simp add: in_queue_def)

lemma bit_set_same: "active_set s' = active_set s \<Longrightarrow> bit_set s' v = bit_set s v"
  by (simp add: bit_set_def)

lemma in_queue_filter:
  "pqueues s' = (pqueues s)[k := filter (\<lambda>kp. fst kp \<noteq> v) (pqueues s ! k)] \<Longrightarrow>
     in_queue s' i u \<longleftrightarrow> in_queue s i u \<and> \<not> (i = k \<and> u = v)"
  unfolding in_queue_def pq_contains_def
  by (cases "i = k") (auto simp: nth_list_update)

lemma in_queue_insert:
  "k < length (pqueues s) \<Longrightarrow>
   pqueues s' = (pqueues s)[k := pq_insert_max (pqueues s ! k) v p] \<Longrightarrow>
     in_queue s' i u \<longleftrightarrow> in_queue s i u \<or> (i = k \<and> u = v)"
  unfolding in_queue_def
  by (cases "i = k") (auto simp: nth_list_update pq_contains_insert_max)

lemma bit_set_update:
  "active_set s' = (active_set s)[v := b] \<Longrightarrow>
     bit_set s' u \<longleftrightarrow> (if u = v then v < length (active_set s) \<and> b else bit_set s u)"
  unfolding bit_set_def by (auto simp: nth_list_update)


text \<open>
  What holds in every execution: a queued vertex is in the queue that \<open>vmap\<close> names, there is
  a lock for every queue, and a call of \<open>add_task\<close> holds the lock of the queue of its vertex.
\<close>
definition orderly :: "system \<Rightarrow> bool" where
  "orderly c \<longleftrightarrow>
     confined (sched c) \<and> length (queuelocks c) = length (pqueues (sched c)) \<and>
     (\<forall>i task priority already_present.
        vec_at (queuelocks c) i = Some (Some (task, priority, already_present)) \<longrightarrow>
        fst task < length (vmap (sched c)) \<and> vmap (sched c) ! fst task = i)"

text \<open>
  What holds as long as no step clashes: the coverage of the queues by the active set; the
  vertex of a call of \<open>add_task\<close> that has set the bit and not yet left has its bit set and is
  not between removal and \<^verbatim>\<open>clear_bit\<close> in any worker; a vertex that is there is in no queue.
\<close>
definition guarded :: "system \<Rightarrow> bool" where
  "guarded c \<longleftrightarrow>
     coverage (sched c) \<and>
     (\<forall>i task priority already_present.
        vec_at (queuelocks c) i = Some (Some (task, priority, already_present)) \<longrightarrow>
        bit_set (sched c) (fst task) \<and> Clear (fst task) \<notin> set (pcs c)) \<and>
     (\<forall>v. Clear v \<in> set (pcs c) \<longrightarrow> (\<forall>i. \<not> in_queue (sched c) i v))"

lemma boot_invariants:
  assumes "splash_scheduler g n statics = Some s"
  shows "orderly (boot s) \<and> guarded (boot s)"
proof -
  have q: "pqueues s = replicate (n * queue_multiple) []" and n: "ncpus s = n"
    using assms unfolding splash_scheduler_def by (auto split: if_splits)
  have i: "confined s \<and> coverage s" using constructed_invariants[OF assms] by simp
  have nq: "\<not> in_queue s i v" for i v unfolding in_queue_def q pq_contains_def by simp
  have l: "vec_at (queuelocks (boot s)) i \<noteq> Some (Some h)" for i h
    unfolding boot_def vec_at_def by simp
  have p: "Clear v \<notin> set (pcs (boot s))" for v unfolding boot_def by simp
  have "orderly (boot s)" unfolding orderly_def using i l by (simp add: boot_def)
  moreover have "guarded (boot s)" unfolding guarded_def using i l p by (simp add: boot_def)
  ultimately show ?thesis by blast
qed

lemma orderly_step:
  assumes "orderly c" "cstep g sh a c = Some (r, c')"
  shows "orderly c'"
proof -
  have cf: "\<And>i v. in_queue (sched c) i v \<Longrightarrow> v < length (vmap (sched c)) \<and> vmap (sched c) ! v = i"
    and ln: "length (queuelocks c) = length (pqueues (sched c))"
    and hd: "\<And>i task priority already_present.
        vec_at (queuelocks c) i = Some (Some (task, priority, already_present)) \<Longrightarrow>
        fst task < length (vmap (sched c)) \<and> vmap (sched c) ! fst task = i"
    using assms(1) unfolding orderly_def confined_iff by blast+
  show ?thesis
  proof (cases a)
    case (Mark task priority)
    then have "add_task_mark g task priority c = Some c'" using assms(2) by auto
    note e = add_task_mark_effect[OF this]
    have vm: "vmap (sched c') = vmap (sched c)" and pq: "pqueues (sched c') = pqueues (sched c)"
      and ql: "queuelocks c' = (queuelocks c)[vmap (sched c) ! fst task :=
        Some (task, priority, active_set (sched c) ! fst task)]"
      and v: "fst task < length (vmap (sched c))"
      using e by blast+
    have "confined (sched c')" unfolding confined_iff vm using cf in_queue_same[OF pq] by simp
    moreover have "length (queuelocks c') = length (pqueues (sched c'))" using ln ql pq by simp
    moreover have "fst t < length (vmap (sched c')) \<and> vmap (sched c') ! fst t = i"
      if "vec_at (queuelocks c') i = Some (Some (t, p, b))" for i t p b
    proof (cases "i = vmap (sched c) ! fst task")
      case True
      then have "t = task" using that unfolding ql vec_at_def by (auto split: if_splits)
      then show ?thesis using True v vm by simp
    next
      case False
      then have "vec_at (queuelocks c) i = Some (Some (t, p, b))"
        using that unfolding ql vec_at_def by (auto split: if_splits)
      then show ?thesis using hd vm by simp
    qed
    ultimately show ?thesis unfolding orderly_def by blast
  next
    case (Enqueue k)
    then have "add_task_enqueue k c = Some c'" using assms(2) by auto
    from add_task_enqueue_effect[OF this] obtain task priority already_present where
      h: "vec_at (queuelocks c) k = Some (Some (task, priority, already_present))"
      and k: "k < length (pqueues (sched c))"
      and ql: "queuelocks c' = (queuelocks c)[k := None]"
      and vm: "vmap (sched c') = vmap (sched c)"
      and pq: "pqueues (sched c') =
       (if \<not> already_present \<or> pq_contains (pqueues (sched c) ! k) (fst task)
        then (pqueues (sched c))[k := pq_insert_max (pqueues (sched c) ! k) (fst task) priority]
        else pqueues (sched c))" by blast
    have iq: "in_queue (sched c') i u \<Longrightarrow> in_queue (sched c) i u \<or> (i = k \<and> u = fst task)" for i u
      using in_queue_insert[OF k, of "sched c'" "fst task" priority i u] in_queue_same[of "sched c'" "sched c" i u] pq
      by (auto split: if_splits)
    have "confined (sched c')" unfolding confined_iff vm using cf iq hd[OF h] by blast
    moreover have "length (queuelocks c') = length (pqueues (sched c'))" using ln ql pq by simp
    moreover have "fst t < length (vmap (sched c')) \<and> vmap (sched c') ! fst t = i"
      if "vec_at (queuelocks c') i = Some (Some (t, p, b))" for i t p b
    proof -
      have "vec_at (queuelocks c) i = Some (Some (t, p, b))"
        using that unfolding ql vec_at_def by (cases "i = k") (auto split: if_splits)
      then show ?thesis using hd vm by simp
    qed
    ultimately show ?thesis unfolding orderly_def by blast
  next
    case (Work w)
    then have "worker_step g sh w c = Some (r, c')" using assms(2) by simp
    note e = worker_step_effect[OF this]
    have vm: "vmap (sched c') = vmap (sched c)" and ql: "queuelocks c' = queuelocks c"
      and pr: "pruned (pqueues (sched c)) (pqueues (sched c'))" using e by blast+
    have "confined (sched c')" unfolding confined_iff vm using cf pruned_in_queue[OF pr] by blast
    moreover have "length (queuelocks c') = length (pqueues (sched c'))"
      using ln ql pruned_length[OF pr] by simp
    ultimately show ?thesis unfolding orderly_def using hd ql vm by simp
  next
    case (Whole call)
    note e = whole_effect[OF assms(2)[unfolded Whole]]
    have vm: "vmap (sched c') = vmap (sched c)" and ql: "queuelocks c' = queuelocks c"
      using e by blast+
    have pr: "pruned (pqueues (sched c)) (pqueues (sched c'))"
      using e pruned_refl[of "pqueues (sched c)"] unfolding advances_def by metis
    have "confined (sched c')" unfolding confined_iff vm using cf pruned_in_queue[OF pr] by blast
    moreover have "length (queuelocks c') = length (pqueues (sched c'))"
      using ln ql pruned_length[OF pr] by simp
    ultimately show ?thesis unfolding orderly_def using hd ql vm by simp
  qed
qed


lemma execution_orderly:
  "orderly c \<Longrightarrow> execution g sh as c = Some (rs, c') \<Longrightarrow> orderly c'"
proof (induction as arbitrary: c rs)
  case Nil
  then show ?case by simp
next
  case (Cons a as)
  from Cons.prems(2) obtain r c1 rs1 where s: "cstep g sh a c = Some (r, c1)"
    and e: "execution g sh as c1 = Some (rs1, c')"
    by (auto split: option.splits)
  have "orderly c1" using Cons.prems(1) s by (rule orderly_step)
  then show ?case using e by (rule Cons.IH)
qed


text \<open>\<open>marks v a\<close>: the step is the \<^verbatim>\<open>set_bit\<close> of an \<open>add_task\<close> for \<open>v\<close>.\<close>
fun marks :: "vertex_id \<Rightarrow> action \<Rightarrow> bool" where
  "marks v (Mark task priority) = (fst task = v)"
| "marks v a = False"

text \<open>\<open>v\<close> is in no queue and no \<open>add_task\<close> for \<open>v\<close> is between its \<^verbatim>\<open>set_bit\<close> and its \<^verbatim>\<open>unlock()\<close>.\<close>
definition absent :: "vertex_id \<Rightarrow> system \<Rightarrow> bool" where
  "absent v c \<longleftrightarrow>
     (\<forall>i. \<not> in_queue (sched c) i v) \<and>
     (\<forall>i task priority already_present.
        vec_at (queuelocks c) i = Some (Some (task, priority, already_present)) \<longrightarrow> fst task \<noteq> v)"

lemma absent_step:
  assumes "absent v c" "cstep g sh a c = Some (r, c')" "\<not> marks v a"
  shows "absent v c'"
proof -
  have nq: "\<And>i. \<not> in_queue (sched c) i v"
    and nh: "\<And>i task priority already_present.
        vec_at (queuelocks c) i = Some (Some (task, priority, already_present)) \<Longrightarrow> fst task \<noteq> v"
    using assms(1) unfolding absent_def by blast+
  show ?thesis
  proof (cases a)
    case (Mark task priority)
    then have "add_task_mark g task priority c = Some c'" using assms(2) by auto
    note e = add_task_mark_effect[OF this]
    have pq: "pqueues (sched c') = pqueues (sched c)"
      and ql: "queuelocks c' = (queuelocks c)[vmap (sched c) ! fst task :=
        Some (task, priority, active_set (sched c) ! fst task)]"
      using e by blast+
    have nv: "fst task \<noteq> v" using assms(3) Mark by simp
    have "fst t \<noteq> v" if "vec_at (queuelocks c') i = Some (Some (t, p, b))" for i t p b
    proof (cases "i = vmap (sched c) ! fst task")
      case True
      then have "t = task" using that unfolding ql vec_at_def by (auto split: if_splits)
      then show ?thesis using nv by simp
    next
      case False
      then have "vec_at (queuelocks c) i = Some (Some (t, p, b))"
        using that unfolding ql vec_at_def by (auto split: if_splits)
      then show ?thesis by (rule nh)
    qed
    then show ?thesis unfolding absent_def using nq in_queue_same[OF pq] by blast
  next
    case (Enqueue k)
    then have "add_task_enqueue k c = Some c'" using assms(2) by auto
    from add_task_enqueue_effect[OF this] obtain task priority already_present where
      h: "vec_at (queuelocks c) k = Some (Some (task, priority, already_present))"
      and k: "k < length (pqueues (sched c))"
      and ql: "queuelocks c' = (queuelocks c)[k := None]"
      and pq: "pqueues (sched c') =
       (if \<not> already_present \<or> pq_contains (pqueues (sched c) ! k) (fst task)
        then (pqueues (sched c))[k := pq_insert_max (pqueues (sched c) ! k) (fst task) priority]
        else pqueues (sched c))" by blast
    have iq: "in_queue (sched c') i u \<Longrightarrow> in_queue (sched c) i u \<or> (i = k \<and> u = fst task)" for i u
      using in_queue_insert[OF k, of "sched c'" "fst task" priority i u] in_queue_same[of "sched c'" "sched c" i u] pq
      by (auto split: if_splits)
    have "\<not> in_queue (sched c') i v" for i using iq[of i v] nq nh[OF h] by blast
    moreover have "fst t \<noteq> v" if "vec_at (queuelocks c') i = Some (Some (t, p, b))" for i t p b
    proof -
      have "vec_at (queuelocks c) i = Some (Some (t, p, b))"
        using that unfolding ql vec_at_def by (cases "i = k") (auto split: if_splits)
      then show ?thesis by (rule nh)
    qed
    ultimately show ?thesis unfolding absent_def by blast
  next
    case (Work w)
    then have "worker_step g sh w c = Some (r, c')" using assms(2) by simp
    note e = worker_step_effect[OF this]
    have ql: "queuelocks c' = queuelocks c"
      and pr: "pruned (pqueues (sched c)) (pqueues (sched c'))" using e by blast+
    show ?thesis unfolding absent_def ql using nq nh pruned_in_queue[OF pr] by blast
  next
    case (Whole call)
    note e = whole_effect[OF assms(2)[unfolded Whole]]
    have ql: "queuelocks c' = queuelocks c" using e by blast
    have pr: "pruned (pqueues (sched c)) (pqueues (sched c'))"
      using e pruned_refl[of "pqueues (sched c)"] unfolding advances_def by metis
    show ?thesis unfolding absent_def ql using nq nh pruned_in_queue[OF pr] by blast
  qed
qed

lemma clear_bit_step:
  assumes "\<not> bit_set (sched c) v" "cstep g sh a c = Some (r, c')" "\<not> marks v a"
  shows "\<not> bit_set (sched c') v"
proof (cases a)
  case (Mark task priority)
  then have "add_task_mark g task priority c = Some c'" using assms(2) by auto
  note e = add_task_mark_effect[OF this]
  have bs: "active_set (sched c') = (active_set (sched c))[fst task := True]" using e by blast
  have "fst task \<noteq> v" using assms(3) Mark by simp
  then show ?thesis unfolding bit_set_update[OF bs] using assms(1) by simp
next
  case (Enqueue k)
  then have "add_task_enqueue k c = Some c'" using assms(2) by auto
  from add_task_enqueue_effect[OF this] have "active_set (sched c') = active_set (sched c)" by blast
  from bit_set_same[OF this] show ?thesis using assms(1) by simp
next
  case (Work w)
  then have "worker_step g sh w c = Some (r, c')" using assms(2) by simp
  note e = worker_step_effect[OF this]
  show ?thesis
  proof (cases "\<exists>u. pcs c ! w = Clear u")
    case True
    then obtain u where "pcs c ! w = Clear u" by blast
    then have bs: "active_set (sched c') = (active_set (sched c))[u := False]" using e by blast
    show ?thesis unfolding bit_set_update[OF bs] using assms(1) by simp
  next
    case False
    then have "active_set (sched c') = active_set (sched c)" using e by blast
    from bit_set_same[OF this] show ?thesis using assms(1) by simp
  qed
next
  case (Whole call)
  note e = whole_effect[OF assms(2)[unfolded Whole]]
  have "active_set (sched c') = active_set (sched c)" using e by blast
  from bit_set_same[OF this] show ?thesis using assms(1) by simp
qed

lemma execution_absent:
  "absent v c \<Longrightarrow> \<not> bit_set (sched c) v \<Longrightarrow> execution g sh as c = Some (rs, c') \<Longrightarrow>
   \<forall>a \<in> set as. \<not> marks v a \<Longrightarrow> absent v c' \<and> \<not> bit_set (sched c') v"
proof (induction as arbitrary: c rs)
  case Nil
  then show ?case by simp
next
  case (Cons a as)
  from Cons.prems(3) obtain r c1 rs1 where s: "cstep g sh a c = Some (r, c1)"
    and e: "execution g sh as c1 = Some (rs1, c')"
    by (auto split: option.splits)
  have m: "\<not> marks v a" "\<forall>a \<in> set as. \<not> marks v a" using Cons.prems(4) by simp_all
  have "absent v c1" using Cons.prems(1) s m(1) by (rule absent_step)
  moreover have "\<not> bit_set (sched c1) v" using Cons.prems(2) s m(1) by (rule clear_bit_step)
  ultimately show ?case using e m(2) by (rule Cons.IH)
qed

text \<open>While the worker makes no step, the vertex between removal and \<^verbatim>\<open>clear_bit\<close> stays absent.\<close>
lemma execution_turn:
  "absent v c \<Longrightarrow> w < length (pcs c) \<Longrightarrow> execution g sh as c = Some (rs, c') \<Longrightarrow>
   \<forall>a \<in> set as. a \<noteq> Work w \<and> \<not> marks v a \<Longrightarrow>
     absent v c' \<and> w < length (pcs c') \<and> pcs c' ! w = pcs c ! w"
proof (induction as arbitrary: c rs)
  case Nil
  then show ?case by simp
next
  case (Cons a as)
  from Cons.prems(3) obtain r c1 rs1 where s: "cstep g sh a c = Some (r, c1)"
    and e: "execution g sh as c1 = Some (rs1, c')"
    by (auto split: option.splits)
  have m: "a \<noteq> Work w" "\<not> marks v a" "\<forall>a \<in> set as. a \<noteq> Work w \<and> \<not> marks v a"
    using Cons.prems(4) by simp_all
  have a1: "absent v c1" using Cons.prems(1) s m(2) by (rule absent_step)
  have p: "w < length (pcs c1) \<and> pcs c1 ! w = pcs c ! w"
  proof (cases a)
    case (Mark task priority)
    then have "add_task_mark g task priority c = Some c1" using s by auto
    from add_task_mark_effect[OF this] show ?thesis using Cons.prems(2) by simp
  next
    case (Enqueue k)
    then have "add_task_enqueue k c = Some c1" using s by auto
    from add_task_enqueue_effect[OF this] show ?thesis using Cons.prems(2) by auto
  next
    case (Work u)
    then have u: "u \<noteq> w" using m(1) by simp
    from Work have "worker_step g sh u c = Some (r, c1)" using s by simp
    from worker_step_effect[OF this] obtain pc where "pcs c1 = (pcs c)[u := pc]" by blast
    then show ?thesis using u Cons.prems(2) by simp
  next
    case (Whole call)
    from whole_effect[OF s[unfolded Whole]] show ?thesis using Cons.prems(2) by simp
  qed
  from Cons.IH[OF a1 _ e m(3)] p show ?case by simp
qed

lemma take_absent:
  assumes "orderly c" "worker_step g sh w c = Some (r, c')" "pcs c' ! w = Clear v"
  shows "absent v c' \<and> w < length (pcs c')"
proof -
  have cf: "\<And>i u. in_queue (sched c) i u \<Longrightarrow> u < length (vmap (sched c)) \<and> vmap (sched c) ! u = i"
    and hd: "\<And>i task priority already_present.
        vec_at (queuelocks c) i = Some (Some (task, priority, already_present)) \<Longrightarrow>
        fst task < length (vmap (sched c)) \<and> vmap (sched c) ! fst task = i"
    using assms(1) unfolding orderly_def confined_iff by blast+
  note e = worker_step_effect[OF assms(2)]
  have ql: "queuelocks c' = queuelocks c" and w: "w < length (pcs c)"
    and lf: "lock_free c (vmap (sched c) ! v)"
    and pq: "pqueues (sched c') = (pqueues (sched c))[vmap (sched c) ! v :=
           filter (\<lambda>kp. fst kp \<noteq> v) (pqueues (sched c) ! (vmap (sched c) ! v))]"
    using e assms(3) by blast+
  from e obtain pc where "pcs c' = (pcs c)[w := pc]" by blast
  then have w': "w < length (pcs c')" using w by simp
  have "\<not> in_queue (sched c') i v" for i
  proof
    assume q: "in_queue (sched c') i v"
    then have "in_queue (sched c) i v" "i \<noteq> vmap (sched c) ! v"
      using in_queue_filter[OF pq, of i v] by blast+
    then show False using cf by blast
  qed
  moreover have "fst t \<noteq> v" if "vec_at (queuelocks c') i = Some (Some (t, p, b))" for i t p b
  proof
    assume tv: "fst t = v"
    have "vec_at (queuelocks c) i = Some (Some (t, p, b))" using that ql by simp
    from hd[OF this] have "vmap (sched c) ! v = i" using tv by simp
    then show False using lf that ql unfolding lock_free_def by simp
  qed
  ultimately show ?thesis unfolding absent_def using w' by blast
qed

text \<open>
  A call of \<open>add_task\<close> that finds the lock free is the two steps, one after the other.
\<close>
lemma add_task_split:
  assumes "add_task g task priority (sched c) = Some s'"
    and "lock_free c (vmap (sched c) ! fst task)"
  shows "\<exists>c1 c2. add_task_mark g task priority c = Some c1 \<and>
           add_task_enqueue (vmap (sched c) ! fst task) c1 = Some c2 \<and>
           sched c2 = s' \<and> pcs c2 = pcs c \<and> queuelocks c2 = queuelocks c"
proof -
  let ?v = "fst task" and ?k = "vmap (sched c) ! fst task"
  from assms(1) have f: "snd task = update_fun (sched c)" "?v < num_vertices g"
    and v: "?v < length (vmap (sched c))" "?v < length (active_set (sched c))"
    and k: "?k < length (pqueues (sched c))" "?k div queue_multiple < ncpus (sched c)"
    unfolding add_task_def bitset_set_bit_def
    by (auto simp: Let_def vec_at_def split: if_splits Option.bind_splits)
  have l: "?k < length (queuelocks c)" "queuelocks c ! ?k = None"
    using assms(2) unfolding lock_free_def vec_at_def by (auto split: if_splits)
  define c1 where "c1 = c\<lparr>sched := (sched c)\<lparr>active_set := (active_set (sched c))[?v := True]\<rparr>,
     queuelocks := (queuelocks c)[?k := Some (task, priority, active_set (sched c) ! ?v)]\<rparr>"
  have m: "add_task_mark g task priority c = Some c1"
    unfolding add_task_mark_def bitset_set_bit_def c1_def using f v assms(2)
    by (simp add: Let_def vec_at_def)
  have h: "vec_at (queuelocks c1) ?k = Some (Some (task, priority, active_set (sched c) ! ?v))"
    unfolding c1_def vec_at_def using l by simp
  have q: "vec_at (pqueues (sched c1)) ?k = Some (pqueues (sched c) ! ?k)"
    unfolding c1_def vec_at_def using k by simp
  have r: "(queuelocks c1)[?k := None] = queuelocks c"
    unfolding c1_def using l by (simp add: list_update_same_conv)
  have "\<exists>c2. add_task_enqueue ?k c1 = Some c2 \<and> sched c2 = s'"
  proof (cases "\<not> active_set (sched c) ! ?v \<or> pq_contains (pqueues (sched c) ! ?k) ?v")
    case True
    then show ?thesis
      using assms(1) f v k h q unfolding add_task_enqueue_def add_task_def bitset_set_bit_def
      by (auto simp: Let_def vec_at_def c1_def)
  next
    case False
    then show ?thesis
      using assms(1) f v k h q unfolding add_task_enqueue_def add_task_def bitset_set_bit_def
      by (auto simp: Let_def vec_at_def c1_def)
  qed
  then obtain c2 where e: "add_task_enqueue ?k c1 = Some c2" and s: "sched c2 = s'" by blast
  note ee = add_task_enqueue_effect[OF e]
  have "pcs c2 = pcs c" using ee unfolding c1_def by auto
  moreover have "queuelocks c2 = queuelocks c" using ee r by auto
  ultimately show ?thesis using m e s by blast
qed

section \<open>Claims about interleaved executions\<close>

text \<open>
  An execution on \<open>pair_graph\<close> with one worker.  Two calls of \<open>add_task\<close> overlap; the worker
  builds the buffer \<open>[1, 0, 1]\<close> and stands at the head of the inner loop.
\<close>
definition overlapping :: "action list" where
  "overlapping = [Whole (SetUpdateFunction 7), Mark (0, 7) 1, Mark (1, 7) 1, Enqueue 1, Enqueue 0,
     Work 0, Work 0, Work 0, Work 0, Work 0]"

text \<open>
  The worker goes on: it hands out 1 and 0 and removes vertex 1, at its second place in the
  buffer, from the queue.
\<close>
definition second_turn :: "action list" where
  "second_turn = overlapping @ replicate 9 (Work 0)"

text \<open>
  A \<^verbatim>\<open>set_bit\<close> that clashes breaks the coverage, whether the vertex is inserted before the
  worker clears the bit or after it.
\<close>
lemma clash_breaks_coverage:
  "map_option (\<lambda>(rs, c). (pcs c, coverage (sched c)))
     (execution pair_graph no_shuffle second_turn (boot (fresh 2))) = Some ([Clear 1], True) \<and>
   clash_free pair_graph no_shuffle second_turn (boot (fresh 2)) \<and>
   \<not> clash_free pair_graph no_shuffle (second_turn @ [Mark (1, 7) 1]) (boot (fresh 2)) \<and>
   map_option (\<lambda>(rs, c). (last rs, in_queue (sched c) 1 1, bit_set (sched c) 1, coverage (sched c)))
     (execution pair_graph no_shuffle (second_turn @ [Mark (1, 7) 1, Enqueue 1, Work 0]) (boot (fresh 2)))
     = Some (Some (NEWTASK (1, 7)), True, False, False) \<and>
   map_option (\<lambda>(rs, c). (rs ! 20, in_queue (sched c) 1 1, bit_set (sched c) 1, coverage (sched c)))
     (execution pair_graph no_shuffle (second_turn @ [Mark (1, 7) 1, Work 0, Enqueue 1]) (boot (fresh 2)))
     = Some (Some (NEWTASK (1, 7)), True, False, False)"
  by code_simp




text \<open>
  C10, for calls that interleave.  Take any execution, a turn of \<open>next_task_from_splash\<close> in
  it in which worker \<open>w\<close> removes \<open>v\<close> from its queue, and the \<^verbatim>\<open>clear_bit\<close> of that turn, with
  which \<open>get_next_task\<close> returns the task for \<open>v\<close>.  When no \<open>add_task\<close> for \<open>v\<close> has set the
  bit of \<open>v\<close> between the two, the bit of \<open>v\<close> goes from set to clear and \<open>v\<close> is in no queue
  at that moment; and both stay so, whatever steps follow, until an \<open>add_task\<close> for \<open>v\<close>
  sets the bit again.
\<close>
theorem produced_vertex_absent:
  assumes "splash_scheduler g n statics = Some s0"
    and "execution g sh as (boot s0) = Some (rs1, c1)"
    and "worker_step g sh w c1 = Some (r2, c2)" and "pcs c2 ! w = Clear v"
    and "execution g sh bs c2 = Some (rs3, c3)"
    and "\<forall>a \<in> set bs. a \<noteq> Work w \<and> \<not> marks v a"
    and "worker_step g sh w c3 = Some (Some (NEWTASK (v, f)), c4)"
    and "execution g sh ds c4 = Some (rs5, c5)"
    and "\<forall>a \<in> set ds. \<not> marks v a"
  shows "bit_set (sched c3) v \<and> \<not> bit_set (sched c4) v \<and> (\<forall>i. \<not> in_queue (sched c4) i v) \<and>
         \<not> bit_set (sched c5) v \<and> (\<forall>i. \<not> in_queue (sched c5) i v)"
proof -
  have o1: "orderly c1"
    using boot_invariants[OF assms(1), THEN conjunct1] assms(2) by (rule execution_orderly)
  note t = take_absent[OF o1 assms(3,4)]
  from execution_turn[OF t[THEN conjunct1] t[THEN conjunct2] assms(5,6)]
  have a3: "absent v c3" and w3: "w < length (pcs c3)" and p3: "pcs c3 ! w = Clear v"
    using assms(4) by simp_all
  note e = worker_step_effect[OF assms(7)]
  have ql: "queuelocks c4 = queuelocks c3" using e by blast
  from e have "\<forall>u. pcs c3 ! w = Clear u \<longrightarrow>
        pqueues (sched c4) = pqueues (sched c3) \<and> u < length (active_set (sched c3)) \<and>
        active_set (sched c4) = (active_set (sched c3))[u := False] \<and>
        (\<forall>x. pcs c4 ! w \<noteq> Clear x) \<and>
        (if active_set (sched c3) ! u then Some (NEWTASK (v, f)) = Some (NEWTASK (u, update_fun (sched c3)))
         else Some (NEWTASK (v, f)) = None)" by blast
  from this[rule_format, OF p3]
  have pq: "pqueues (sched c4) = pqueues (sched c3)"
    and vl: "v < length (active_set (sched c3))"
    and bs: "active_set (sched c4) = (active_set (sched c3))[v := False]"
    and r: "if active_set (sched c3) ! v then Some (NEWTASK (v, f)) = Some (NEWTASK (v, update_fun (sched c3)))
            else Some (NEWTASK (v, f)) = None"
    by blast+
  have "active_set (sched c3) ! v" using r by (simp split: if_splits)
  then have b3: "bit_set (sched c3) v" using vl unfolding bit_set_def by simp
  have b4: "\<not> bit_set (sched c4) v" unfolding bit_set_update[OF bs] by simp
  have a4: "absent v c4" using a3 unfolding absent_def ql in_queue_same[OF pq] .
  from execution_absent[OF a4 b4 assms(8,9)]
  have "absent v c5" "\<not> bit_set (sched c5) v" by simp_all
  then show ?thesis using b3 b4 a4 unfolding absent_def by blast
qed

theorem produced_vertex_absent_witness:
  "splash_scheduler pair_graph 1 (replicate 128 0) = Some (fresh 2) \<and>
   \<not> marks 1 (Mark (0, 7) 1) \<and> \<not> marks 1 (Enqueue 0) \<and>
   \<not> marks 1 (Work 0) \<and> \<not> marks 1 (Whole Restart) \<and>
   (\<exists>rs1 c1 r2 c2 rs3 c3 c4 rs5 c5.
      execution pair_graph no_shuffle overlapping (boot (fresh 2)) = Some (rs1, c1) \<and>
      worker_step pair_graph no_shuffle 0 c1 = Some (r2, c2) \<and> pcs c2 ! 0 = Clear 1 \<and>
      execution pair_graph no_shuffle [Mark (0, 7) 1, Enqueue 0] c2 = Some (rs3, c3) \<and>
      worker_step pair_graph no_shuffle 0 c3 = Some (Some (NEWTASK (1, 7)), c4) \<and>
      execution pair_graph no_shuffle [Work 0, Work 0, Whole Restart] c4 = Some (rs5, c5) \<and>
      bit_set (sched c3) 1 \<and> \<not> bit_set (sched c4) 1 \<and> \<not> in_queue (sched c4) 1 1 \<and>
      \<not> bit_set (sched c5) 1 \<and> \<not> in_queue (sched c5) 1 1)"
proof -
  define c1 where "c1 = snd (the (execution pair_graph no_shuffle overlapping (boot (fresh 2))))"
  define c2 where "c2 = snd (the (worker_step pair_graph no_shuffle 0 c1))"
  define c3 where "c3 = snd (the (execution pair_graph no_shuffle [Mark (0, 7) 1, Enqueue 0] c2))"
  define c4 where "c4 = snd (the (worker_step pair_graph no_shuffle 0 c3))"
  define c5 where "c5 = snd (the (execution pair_graph no_shuffle [Work 0, Work 0, Whole Restart] c4))"
  have s: "splash_scheduler pair_graph 1 (replicate 128 0) = Some (fresh 2)" by code_simp
  have e1: "execution pair_graph no_shuffle overlapping (boot (fresh 2)) = Some (replicate 10 None, c1)"
    unfolding c1_def by code_simp
  have e2: "worker_step pair_graph no_shuffle 0 c1 = Some (None, c2)"
    unfolding c2_def c1_def by code_simp
  have p2: "pcs c2 ! 0 = Clear 1" unfolding c2_def c1_def by code_simp
  have e3: "execution pair_graph no_shuffle [Mark (0, 7) 1, Enqueue 0] c2 = Some ([None, None], c3)"
    unfolding c3_def c2_def c1_def by code_simp
  have n3: "\<forall>a \<in> set [Mark (0, 7) 1, Enqueue 0]. a \<noteq> Work 0 \<and> \<not> marks 1 a" by simp
  have e4: "worker_step pair_graph no_shuffle 0 c3 = Some (Some (NEWTASK (1, 7)), c4)"
    unfolding c4_def c3_def c2_def c1_def by code_simp
  have e5: "execution pair_graph no_shuffle [Work 0, Work 0, Whole Restart] c4 = Some ([None, None, None], c5)"
    unfolding c5_def c4_def c3_def c2_def c1_def by code_simp
  have n5: "\<forall>a \<in> set [Work 0, Work 0, Whole Restart]. \<not> marks 1 a" by simp
  from produced_vertex_absent[OF s e1 e2 p2 e3 n3 e4 e5 n5]
  have "bit_set (sched c3) 1 \<and> \<not> bit_set (sched c4) 1 \<and> \<not> in_queue (sched c4) 1 1 \<and>
      \<not> bit_set (sched c5) 1 \<and> \<not> in_queue (sched c5) 1 1" by blast
  moreover have "\<not> marks 1 (Mark (0, 7) 1) \<and> \<not> marks 1 (Enqueue 0) \<and>
      \<not> marks 1 (Work 0) \<and> \<not> marks 1 (Whole Restart)" by simp
  ultimately show ?thesis using s e1 e2 p2 e3 e4 e5 by blast
qed

text \<open>
  C10 as stated fails when calls interleave, in the interleaving of C7: at the moment the
  worker clears the bit of vertex 1 and produces the task, vertex 1 is in the queue of its
  shard, where the \<open>add_task\<close> that ran since the removal has put it, and it is still there
  with its bit clear when \<open>get_next_task\<close> returns.
\<close>
theorem produced_while_queued:
  "take_from_splash 1 0 race_before = Some race_taken \<and>
   \<not> in_queue race_taken (vmap race_taken ! 1) 1 \<and>
   add_task pair_graph (1, 7) 1 race_taken = Some race_submitted \<and>
   in_queue race_submitted (vmap race_submitted ! 1) 1 \<and>
   clear_and_produce 1 race_submitted = Some (Some (1, 7), race_after) \<and>
   in_queue race_after (vmap race_after ! 1) 1 \<and> \<not> bit_set race_after 1"
  by code_simp

section \<open>Graphs whose vertices have at most one in-edge\<close>


lemma shuffles_short:
  assumes "shuffles sh" "length xs \<le> 1"
  shows "sh k xs = xs"
proof -
  have m: "mset (sh k xs) = mset xs" using assms(1) unfolding shuffles_def by blast
  show ?thesis
  proof (cases xs)
    case Nil
    then show ?thesis using m by simp
  next
    case (Cons x ys)
    then have "xs = [x]" using assms(2) by simp
    then show ?thesis using m by simp
  qed
qed

lemma upt4: "[0 ..< 4] = [0, 1, 2, 3 :: nat]"
  by code_simp

lemma chain5_in_edges: "length (in_edge_ids chain5 v) \<le> 1"
  unfolding chain5_def graph_of_def by (simp add: upt4)

lemma chain5_reversed_in_edges: "length (in_edge_ids chain5_reversed v) \<le> 1"
  unfolding chain5_reversed_def graph_of_def by (simp add: upt4)

text \<open>One turn of the search loop, case by case.\<close>
lemma bfs_loop_turn:
  "\<not> (w < splash_size s \<and> bq \<noteq> []) \<Longrightarrow> bfs_loop g sh splash w vis bq s = Some (splash, s)"
  "w < splash_size s \<Longrightarrow> bq \<noteq> [] \<Longrightarrow> work g (hd bq) + w > splash_size s \<Longrightarrow>
     bfs_loop g sh splash w vis bq s = bfs_loop g sh splash w vis (tl bq) s"
  "w < splash_size s \<Longrightarrow> bq \<noteq> [] \<Longrightarrow> \<not> work g (hd bq) + w > splash_size s \<Longrightarrow>
     vec_at (vmap s) (hd bq) = None \<Longrightarrow> bfs_loop g sh splash w vis bq s = None"
  "w < splash_size s \<Longrightarrow> bq \<noteq> [] \<Longrightarrow> \<not> work g (hd bq) + w > splash_size s \<Longrightarrow>
     vec_at (vmap s) (hd bq) = Some qid \<Longrightarrow> vec_at (pqueues s) qid = None \<Longrightarrow>
     bfs_loop g sh splash w vis bq s = None"
  "w < splash_size s \<Longrightarrow> bq \<noteq> [] \<Longrightarrow> \<not> work g (hd bq) + w > splash_size s \<Longrightarrow>
     vec_at (vmap s) (hd bq) = Some qid \<Longrightarrow> vec_at (pqueues s) qid = Some q \<Longrightarrow>
     \<not> fst (pq_remove q (hd bq)) \<Longrightarrow>
     bfs_loop g sh splash w vis bq s
       = bfs_loop g sh splash w vis (tl bq) (s\<lparr>pqueues := (pqueues s)[qid := snd (pq_remove q (hd bq))]\<rparr>)"
  "w < splash_size s \<Longrightarrow> bq \<noteq> [] \<Longrightarrow> \<not> work g (hd bq) + w > splash_size s \<Longrightarrow>
     vec_at (vmap s) (hd bq) = Some qid \<Longrightarrow> vec_at (pqueues s) qid = Some q \<Longrightarrow>
     fst (pq_remove q (hd bq)) \<Longrightarrow>
     bfs_loop g sh splash w vis bq s
       = bfs_loop g sh (splash @ [hd bq]) (w + work g (hd bq))
           (fst (add_neighbors g (sh (rng s) (in_edge_ids g (hd bq))) vis (tl bq)))
           (snd (add_neighbors g (sh (rng s) (in_edge_ids g (hd bq))) vis (tl bq)))
           (s\<lparr>pqueues := (pqueues s)[qid := snd (pq_remove q (hd bq))], rng := rng s + 1\<rparr>)"
  apply (subst bfs_loop.simps, rule if_not_P, assumption)
  apply (subst bfs_loop.simps, simp add: Let_def)+
  done

text \<open>A shuffle that leaves the in-edge lists of the graph as they are makes no difference.\<close>
lemma bfs_loop_no_choice:
  "(\<forall>k v. sh k (in_edge_ids g v) = in_edge_ids g v) \<Longrightarrow>
     bfs_loop g sh splash w vis bq s = bfs_loop g no_shuffle splash w vis bq s"
proof (induction g sh splash w vis bq s rule: bfs_loop.induct)
  case (1 g sh splash w vis bq s)
  note same = "1.prems"
  have e: "sh k (in_edge_ids g v) = no_shuffle k (in_edge_ids g v)" for k v
    using same by (simp add: no_shuffle_def)
  show ?case
  proof (cases "w < splash_size s \<and> bq \<noteq> []")
    case False
    show ?thesis unfolding bfs_loop_turn(1)[OF False] ..
  next
    case go: True
    then have g1: "w < splash_size s" and g2: "bq \<noteq> []" by simp_all
    show ?thesis
    proof (cases "work g (hd bq) + w > splash_size s")
      case True
      have "bfs_loop g sh splash w vis (tl bq) s = bfs_loop g no_shuffle splash w vis (tl bq) s"
        using "1.IH"(1)[OF go refl refl refl True same] .
      then show ?thesis unfolding bfs_loop_turn(2)[OF g1 g2 True] .
    next
      case light: False
      show ?thesis
      proof (cases "vec_at (vmap s) (hd bq)")
        case None
        show ?thesis unfolding bfs_loop_turn(3)[OF g1 g2 light None] ..
      next
        case (Some qid)
        show ?thesis
        proof (cases "vec_at (pqueues s) qid")
          case None
          show ?thesis unfolding bfs_loop_turn(4)[OF g1 g2 light Some None] ..
        next
          case q: (Some q)
          show ?thesis
          proof (cases "fst (pq_remove q (hd bq))")
            case False
            have "bfs_loop g sh splash w vis (tl bq) (s\<lparr>pqueues := (pqueues s)[qid := snd (pq_remove q (hd bq))]\<rparr>)
                = bfs_loop g no_shuffle splash w vis (tl bq) (s\<lparr>pqueues := (pqueues s)[qid := snd (pq_remove q (hd bq))]\<rparr>)"
              using "1.IH"(2)[OF go refl refl refl light Some q False same] .
            then show ?thesis unfolding bfs_loop_turn(5)[OF g1 g2 light Some q False] .
          next
            case True
            then have f: "\<not> \<not> fst (pq_remove q (hd bq))" by simp
            have "bfs_loop g sh (splash @ [hd bq]) (w + work g (hd bq))
                    (fst (add_neighbors g (sh (rng s) (in_edge_ids g (hd bq))) vis (tl bq)))
                    (snd (add_neighbors g (sh (rng s) (in_edge_ids g (hd bq))) vis (tl bq)))
                    (s\<lparr>pqueues := (pqueues s)[qid := snd (pq_remove q (hd bq))], rng := rng s + 1\<rparr>)
                = bfs_loop g no_shuffle (splash @ [hd bq]) (w + work g (hd bq))
                    (fst (add_neighbors g (sh (rng s) (in_edge_ids g (hd bq))) vis (tl bq)))
                    (snd (add_neighbors g (sh (rng s) (in_edge_ids g (hd bq))) vis (tl bq)))
                    (s\<lparr>pqueues := (pqueues s)[qid := snd (pq_remove q (hd bq))], rng := rng s + 1\<rparr>)"
              using "1.IH"(3)[OF go refl refl refl light Some q f same] .
            then show ?thesis unfolding bfs_loop_turn(6)[OF g1 g2 light Some q True] unfolding e .
          qed
        qed
      qed
    qed
  qed
qed

lemma grow_splash_no_choice:
  assumes "\<forall>k v. sh k (in_edge_ids g v) = in_edge_ids g v"
  shows "grow_splash g sh cpuid s = grow_splash g no_shuffle cpuid s"
proof -
  have e: "sh k (in_edge_ids g v) = no_shuffle k (in_edge_ids g v)" for k v
    using assms by (simp add: no_shuffle_def)
  show ?thesis
    unfolding grow_splash_def bfs_loop_no_choice[OF assms] e ..
qed

lemma rebuild_splash_no_choice:
  assumes "\<forall>k v. sh k (in_edge_ids g v) = in_edge_ids g v"
  shows "rebuild_splash g sh cpuid s = rebuild_splash g no_shuffle cpuid s"
  unfolding rebuild_splash_def grow_splash_no_choice[OF assms] ..

lemma next_task_no_choice:
  "(\<forall>k v. sh k (in_edge_ids g v) = in_edge_ids g v) \<Longrightarrow>
     next_task_from_splash g sh cpuid s = next_task_from_splash g no_shuffle cpuid s"
proof (induction g sh cpuid s rule: next_task_from_splash.induct)
  case (1 g sh cpuid s)
  note same = "1.prems"
  note rb = rebuild_splash_no_choice[OF same]
  show ?case
  proof (cases "cpuid < length (splashes s)")
    case False
    then show ?thesis
      by (subst next_task_from_splash.simps[of g sh], subst next_task_from_splash.simps[of g no_shuffle]) simp
  next
    case c: True
    show ?thesis
    proof (cases "aborted s")
      case True
      then show ?thesis using c
        by (subst next_task_from_splash.simps[of g sh], subst next_task_from_splash.simps[of g no_shuffle]) simp
    next
      case na: False
      show ?thesis
      proof (cases "depleted cpuid s")
        case None
        then show ?thesis using c na
          by (subst next_task_from_splash.simps[of g sh], subst next_task_from_splash.simps[of g no_shuffle]) simp
      next
        case d: (Some d)
        show ?thesis
        proof (cases "if d then rebuild_splash g sh cpuid s else Some s")
          case None
          then have "(if d then rebuild_splash g no_shuffle cpuid s else Some s) = None"
            unfolding rb .
          then show ?thesis using c na d None
            by (subst next_task_from_splash.simps[of g sh], subst next_task_from_splash.simps[of g no_shuffle]) simp
        next
          case s1: (Some s1)
          then have s1': "(if d then rebuild_splash g no_shuffle cpuid s else Some s) = Some s1"
            unfolding rb .
          show ?thesis
          proof (cases "depleted cpuid s1")
            case None
            then show ?thesis using c na d s1 s1'
              by (subst next_task_from_splash.simps[of g sh], subst next_task_from_splash.simps[of g no_shuffle]) simp
          next
            case d1: (Some d1)
            show ?thesis
            proof (cases d1)
              case True
              then show ?thesis using c na d s1 s1' d1
                by (subst next_task_from_splash.simps[of g sh], subst next_task_from_splash.simps[of g no_shuffle]) simp
            next
              case nd: False
              show ?thesis
              proof (cases "drain_splash (remaining cpuid s1) cpuid s1")
                case None
                then show ?thesis using c na d s1 s1' d1 nd
                  by (subst next_task_from_splash.simps[of g sh], subst next_task_from_splash.simps[of g no_shuffle]) simp
              next
                case (Some res)
                obtain task s2 where res: "res = (task, s2)" by (cases res)
                show ?thesis
                proof (cases task)
                  case (Some t)
                  then show ?thesis using c na d s1 s1' d1 nd \<open>drain_splash (remaining cpuid s1) cpuid s1 = Some res\<close> res
                    by (subst next_task_from_splash.simps[of g sh], subst next_task_from_splash.simps[of g no_shuffle]) simp
                next
                  case None
                  have nn: "\<not> \<not> cpuid < length (splashes s)" using c by simp
                  have dr: "drain_splash (remaining cpuid s1) cpuid s1 = Some (None, s2)"
                    using \<open>drain_splash (remaining cpuid s1) cpuid s1 = Some res\<close> res None by simp
                  have "next_task_from_splash g sh cpuid s2 = next_task_from_splash g no_shuffle cpuid s2"
                    using "1.IH"[OF nn na d s1 d1 nd dr refl refl same] .
                  then show ?thesis using c na d s1 s1' d1 nd dr
                    by (subst next_task_from_splash.simps[of g sh], subst next_task_from_splash.simps[of g no_shuffle]) simp
                qed
              qed
            qed
          qed
        qed
      qed
    qed
  qed
qed

lemma get_next_task_no_choice:
  assumes "\<forall>k v. sh k (in_edge_ids g v) = in_edge_ids g v"
  shows "get_next_task g sh answers cpuid s = get_next_task g no_shuffle answers cpuid s"
proof (induction answers arbitrary: s)
  case Nil
  show ?case
    by (subst get_next_task.simps[of g sh], subst get_next_task.simps[of g no_shuffle])
       (simp only: next_task_no_choice[OF assms] list.case)
next
  case (Cons a answers)
  show ?case
    by (subst get_next_task.simps[of g sh], subst get_next_task.simps[of g no_shuffle])
       (simp only: next_task_no_choice[OF assms] list.case Cons.IH)
qed

lemma poll_no_choice:
  "(\<forall>k v. sh k (in_edge_ids g v) = in_edge_ids g v) \<Longrightarrow>
     poll g sh cpuid s = poll g no_shuffle cpuid s"
proof (induction g sh cpuid s rule: poll.induct)
  case (1 g sh cpuid s)
  note same = "1.prems"
  note gn = get_next_task_no_choice[OF same]
  show ?case
  proof (cases "get_next_task g sh [True] cpuid s")
    case None
    then show ?thesis using None[unfolded gn]
      by (subst poll.simps[of g sh], subst poll.simps[of g no_shuffle]) simp
  next
    case (Some res)
    obtain r s1 where res: "res = (r, s1)" by (cases res)
    show ?thesis
    proof (cases "\<exists>task. r = Some (NEWTASK task)")
      case True
      then obtain task where r: "r = Some (NEWTASK task)" by blast
      have "poll g sh cpuid s1 = poll g no_shuffle cpuid s1"
        using "1.IH"[OF Some[unfolded res r] refl refl refl same] .
      then show ?thesis using Some[unfolded res r] Some[unfolded gn res r]
        by (subst poll.simps[of g sh], subst poll.simps[of g no_shuffle]) simp
    next
      case False
      then show ?thesis using Some[unfolded res] Some[unfolded gn res]
        by (subst poll.simps[of g sh], subst poll.simps[of g no_shuffle])
           (auto split: option.splits sched_status.splits)
    qed
  qed
qed

section \<open>A worker reads and writes its own place of the static array only\<close>

text \<open>
  \<open>same_cursor cpuid s t\<close>: the two states differ at most in the places of \<open>lastqid\<close> that
  belong to other workers.
\<close>
definition same_cursor :: "nat \<Rightarrow> scheduler \<Rightarrow> scheduler \<Rightarrow> bool" where
  "same_cursor cpuid s t \<longleftrightarrow>
     (\<exists>l. t = s\<lparr>lastqid := l\<rparr> \<and> cpuid < length l \<and> cpuid < length (lastqid s) \<and>
          l ! cpuid = lastqid s ! cpuid)"

lemma same_cursorI:
  "cpuid < length l \<Longrightarrow> cpuid < length (lastqid s) \<Longrightarrow> l ! cpuid = lastqid s ! cpuid \<Longrightarrow>
     same_cursor cpuid s (s\<lparr>lastqid := l\<rparr>)"
  unfolding same_cursor_def by blast

lemma same_cursor_update:
  assumes "same_cursor cpuid s t"
  shows "same_cursor cpuid (s\<lparr>pqueues := a\<rparr>) (t\<lparr>pqueues := a\<rparr>)"
    "same_cursor cpuid (s\<lparr>rng := b\<rparr>) (t\<lparr>rng := b\<rparr>)"
    "same_cursor cpuid (s\<lparr>splashes := c\<rparr>) (t\<lparr>splashes := c\<rparr>)"
    "same_cursor cpuid (s\<lparr>splash_index := d\<rparr>) (t\<lparr>splash_index := d\<rparr>)"
    "same_cursor cpuid (s\<lparr>active_set := e\<rparr>) (t\<lparr>active_set := e\<rparr>)"
    "same_cursor cpuid (s\<lparr>monitor := f\<rparr>) (t\<lparr>monitor := f\<rparr>)"
    "same_cursor cpuid (s\<lparr>terminator := h\<rparr>) (t\<lparr>terminator := h\<rparr>)"
proof -
  from assms obtain l where l: "t = s\<lparr>lastqid := l\<rparr>" "cpuid < length l"
    "cpuid < length (lastqid s)" "l ! cpuid = lastqid s ! cpuid"
    unfolding same_cursor_def by blast
  show "same_cursor cpuid (s\<lparr>pqueues := a\<rparr>) (t\<lparr>pqueues := a\<rparr>)"
    unfolding l(1) same_cursor_def by (rule exI[of _ l]) (simp add: l(2-4))
  show "same_cursor cpuid (s\<lparr>rng := b\<rparr>) (t\<lparr>rng := b\<rparr>)"
    unfolding l(1) same_cursor_def by (rule exI[of _ l]) (simp add: l(2-4))
  show "same_cursor cpuid (s\<lparr>splashes := c\<rparr>) (t\<lparr>splashes := c\<rparr>)"
    unfolding l(1) same_cursor_def by (rule exI[of _ l]) (simp add: l(2-4))
  show "same_cursor cpuid (s\<lparr>splash_index := d\<rparr>) (t\<lparr>splash_index := d\<rparr>)"
    unfolding l(1) same_cursor_def by (rule exI[of _ l]) (simp add: l(2-4))
  show "same_cursor cpuid (s\<lparr>active_set := e\<rparr>) (t\<lparr>active_set := e\<rparr>)"
    unfolding l(1) same_cursor_def by (rule exI[of _ l]) (simp add: l(2-4))
  show "same_cursor cpuid (s\<lparr>monitor := f\<rparr>) (t\<lparr>monitor := f\<rparr>)"
    unfolding l(1) same_cursor_def by (rule exI[of _ l]) (simp add: l(2-4))
  show "same_cursor cpuid (s\<lparr>terminator := h\<rparr>) (t\<lparr>terminator := h\<rparr>)"
    unfolding l(1) same_cursor_def by (rule exI[of _ l]) (simp add: l(2-4))
qed

lemma same_cursor_fields:
  "same_cursor cpuid s t \<Longrightarrow>
     pqueues t = pqueues s \<and> vmap t = vmap s \<and> splashes t = splashes s \<and>
     splash_index t = splash_index s \<and> active_set t = active_set s \<and> aborted t = aborted s \<and>
     splash_size t = splash_size s \<and> update_fun t = update_fun s \<and> ncpus t = ncpus s \<and>
     rng t = rng s \<and> terminator t = terminator s \<and> monitor t = monitor s \<and>
     vec_at (lastqid t) cpuid = vec_at (lastqid s) cpuid"
  unfolding same_cursor_def by (auto simp: vec_at_def)

lemma get_top_loop_cursor:
  "get_top_loop is cpuid s = Some (r, s') \<Longrightarrow> same_cursor cpuid s t \<Longrightarrow>
     \<exists>t'. get_top_loop is cpuid t = Some (r, t') \<and> same_cursor cpuid s' t'"
proof (induction "is")
  case Nil
  from Nil.prems(2) obtain l where l: "t = s\<lparr>lastqid := l\<rparr>" "cpuid < length l"
    "cpuid < length (lastqid s)" "l ! cpuid = lastqid s ! cpuid"
    unfolding same_cursor_def by blast
  have r: "r = None" "s' = s\<lparr>lastqid := (lastqid s)[cpuid := 0]\<rparr>"
    using Nil.prems(1) by (auto split: if_splits)
  have "get_top_loop [] cpuid t = Some (None, s'\<lparr>lastqid := l[cpuid := 0]\<rparr>)"
    unfolding l(1) r(2) using l(2) by simp
  moreover have "same_cursor cpuid s' (s'\<lparr>lastqid := l[cpuid := 0]\<rparr>)"
    by (rule same_cursorI) (simp_all add: r(2) l(2,3))
  ultimately show ?case using r(1) by blast
next
  case (Cons i "is")
  note f = same_cursor_fields[OF Cons.prems(2)]
  from Cons.prems(2) obtain l where l: "t = s\<lparr>lastqid := l\<rparr>" "cpuid < length l"
    "cpuid < length (lastqid s)" "l ! cpuid = lastqid s ! cpuid"
    unfolding same_cursor_def by blast
  from Cons.prems(1) obtain lastq q where
    lq: "vec_at (lastqid s) cpuid = Some lastq"
    and q: "vec_at (pqueues s) (cpuid * queue_multiple + (i + lastq) mod queue_multiple) = Some q"
    by (auto simp: Let_def split: Option.bind_splits)
  have lq': "vec_at (lastqid t) cpuid = Some lastq" using f lq by simp
  have q': "vec_at (pqueues t) (cpuid * queue_multiple + (i + lastq) mod queue_multiple) = Some q"
    using f q by simp
  show ?case
  proof (cases "pq_empty q")
    case True
    then have "get_top_loop is cpuid s = Some (r, s')"
      using Cons.prems(1) lq q by (simp add: Let_def)
    from Cons.IH[OF this Cons.prems(2)] show ?thesis
      using True lq' q' by (simp add: Let_def)
  next
    case False
    let ?j = "(i + lastq) mod queue_multiple"
    let ?ix = "cpuid * queue_multiple + ?j"
    have r: "r = Some (pq_top q)"
      "s' = s\<lparr>pqueues := (pqueues s)[?ix := pq_pop q], lastqid := (lastqid s)[cpuid := ?j + 1]\<rparr>"
      using Cons.prems(1) lq q False by (simp_all add: Let_def)
    have "get_top_loop (i # is) cpuid t
        = Some (Some (pq_top q), t\<lparr>pqueues := (pqueues t)[?ix := pq_pop q],
                                    lastqid := (lastqid t)[cpuid := ?j + 1]\<rparr>)"
      using lq' q' False by (simp add: Let_def)
    moreover have "t\<lparr>pqueues := (pqueues t)[?ix := pq_pop q], lastqid := (lastqid t)[cpuid := ?j + 1]\<rparr>
        = s'\<lparr>lastqid := l[cpuid := ?j + 1]\<rparr>"
      unfolding l(1) r(2) by simp
    moreover have "same_cursor cpuid s' (s'\<lparr>lastqid := l[cpuid := ?j + 1]\<rparr>)"
      by (rule same_cursorI) (simp_all add: r(2) l(2,3))
    ultimately show ?thesis using r(1) by metis
  qed
qed

lemma bfs_loop_cursor:
  assumes "bfs_loop g sh splash w vis bq s = Some (sp, s')"
  shows "bfs_loop g sh splash w vis bq (s\<lparr>lastqid := l\<rparr>) = Some (sp, s'\<lparr>lastqid := l\<rparr>)"
  using assms
proof (induction rule: bfs_loop_cases)
  case (stop splash w vis bq s)
  then show ?case by (simp add: bfs_loop_turn(1))
next
  case (heavy splash w vis bq s sp s')
  then show ?case by (simp add: bfs_loop_turn(2))
next
  case (absent splash w vis bq s sp s' qid q)
  have a: "\<not> fst (pq_remove q (hd bq))" using absent(6) by (simp add: pq_remove_def)
  have "bfs_loop g sh splash w vis bq (s\<lparr>lastqid := l\<rparr>)
      = bfs_loop g sh splash w vis (tl bq)
          (s\<lparr>lastqid := l\<rparr>\<lparr>pqueues := (pqueues (s\<lparr>lastqid := l\<rparr>))[qid := snd (pq_remove q (hd bq))]\<rparr>)"
    by (rule bfs_loop_turn(5)[where q = q]) (use absent a in simp_all)
  also have "s\<lparr>lastqid := l\<rparr>\<lparr>pqueues := (pqueues (s\<lparr>lastqid := l\<rparr>))[qid := snd (pq_remove q (hd bq))]\<rparr>
      = s\<lparr>lastqid := l\<rparr>"
    using pq_remove_absent[OF a] vec_at_update_same[OF absent(5)] by simp
  finally show ?case using absent(8) by simp
next
  case (added splash w vis bq s sp s' qid q s1)
  have a: "fst (pq_remove q (hd bq))" using added(6) by (simp add: pq_remove_def)
  have "bfs_loop g sh splash w vis bq (s\<lparr>lastqid := l\<rparr>)
      = bfs_loop g sh (splash @ [hd bq]) (w + work g (hd bq))
           (fst (add_neighbors g (sh (rng (s\<lparr>lastqid := l\<rparr>)) (in_edge_ids g (hd bq))) vis (tl bq)))
           (snd (add_neighbors g (sh (rng (s\<lparr>lastqid := l\<rparr>)) (in_edge_ids g (hd bq))) vis (tl bq)))
           (s\<lparr>lastqid := l\<rparr>\<lparr>pqueues := (pqueues (s\<lparr>lastqid := l\<rparr>))[qid := snd (pq_remove q (hd bq))],
               rng := rng (s\<lparr>lastqid := l\<rparr>) + 1\<rparr>)"
    by (rule bfs_loop_turn(6)[where q = q]) (use added a in simp_all)
  also have "s\<lparr>lastqid := l\<rparr>\<lparr>pqueues := (pqueues (s\<lparr>lastqid := l\<rparr>))[qid := snd (pq_remove q (hd bq))],
               rng := rng (s\<lparr>lastqid := l\<rparr>) + 1\<rparr> = s1\<lparr>lastqid := l\<rparr>"
    unfolding added(7) by (simp add: pq_remove_def)
  finally show ?case using added(9) by simp
qed

lemma bfs_loop_same_cursor:
  assumes "bfs_loop g sh splash w vis bq s = Some (sp, s')" "same_cursor cpuid s t"
  shows "\<exists>t'. bfs_loop g sh splash w vis bq t = Some (sp, t') \<and> same_cursor cpuid s' t'"
proof -
  from assms(2) obtain l where l: "t = s\<lparr>lastqid := l\<rparr>" "cpuid < length l"
    "cpuid < length (lastqid s)" "l ! cpuid = lastqid s ! cpuid"
    unfolding same_cursor_def by blast
  have "lastqid s' = lastqid s" using bfs_loop_frame[OF assms(1)] by simp
  then have "same_cursor cpuid s' (s'\<lparr>lastqid := l\<rparr>)"
    using l(2-4) by (intro same_cursorI) simp_all
  then show ?thesis using bfs_loop_cursor[OF assms(1), of l] l(1) by blast
qed

lemma get_top_cursor:
  "get_top cpuid s = Some (r, s') \<Longrightarrow> same_cursor cpuid s t \<Longrightarrow>
     \<exists>t'. get_top cpuid t = Some (r, t') \<and> same_cursor cpuid s' t'"
  unfolding get_top_def by (rule get_top_loop_cursor)

lemma grow_splash_cursor:
  assumes "grow_splash g sh cpuid s = Some (fwd, s')" "same_cursor cpuid s t"
  shows "\<exists>t'. grow_splash g sh cpuid t = Some (fwd, t') \<and> same_cursor cpuid s' t'"
  using assms(1)
proof (cases rule: grow_splash_cases)
  case no_root
  note f = same_cursor_fields[OF assms(2)]
  let ?s0 = "s\<lparr>splashes := (splashes s)[cpuid := []], splash_index := (splash_index s)[cpuid := 0]\<rparr>"
  let ?t0 = "t\<lparr>splashes := (splashes t)[cpuid := []], splash_index := (splash_index t)[cpuid := 0]\<rparr>"
  have "same_cursor cpuid ?s0 ?t0"
    using same_cursor_update(3,4) assms(2) f by metis
  from get_top_cursor[OF no_root(4) this] obtain t' where
    t': "get_top cpuid ?t0 = Some (None, t')" "same_cursor cpuid s' t'" by blast
  have "grow_splash g sh cpuid t = Some ([], t')"
    unfolding grow_splash_def using no_root(1-3) f t'(1) by (simp add: vec_at_def)
  then show ?thesis using t'(2) no_root(5) by blast
next
  case (rooted root_vertex root_priority s0)
  note f = same_cursor_fields[OF assms(2)]
  let ?s0 = "s\<lparr>splashes := (splashes s)[cpuid := []], splash_index := (splash_index s)[cpuid := 0]\<rparr>"
  let ?t0 = "t\<lparr>splashes := (splashes t)[cpuid := []], splash_index := (splash_index t)[cpuid := 0]\<rparr>"
  have "same_cursor cpuid ?s0 ?t0"
    using same_cursor_update(3,4) assms(2) f by metis
  from get_top_cursor[OF rooted(4) this] obtain t0 where
    t0: "get_top cpuid ?t0 = Some (Some (root_vertex, root_priority), t0)" "same_cursor cpuid s0 t0"
    by blast
  note f0 = same_cursor_fields[OF t0(2)]
  have "same_cursor cpuid (s0\<lparr>rng := rng s0 + 1\<rparr>) (t0\<lparr>rng := rng s0 + 1\<rparr>)"
    using t0(2) by (rule same_cursor_update(2))
  from bfs_loop_same_cursor[OF rooted(5) this] obtain t' where
    t': "bfs_loop g sh [root_vertex]
         (if root_priority > 1 then splash_size s0 else work g root_vertex)
         (fst (seed_neighbors g (sh (rng s0) (in_edge_ids g root_vertex)) {root_vertex} []))
         (snd (seed_neighbors g (sh (rng s0) (in_edge_ids g root_vertex)) {root_vertex} []))
         (t0\<lparr>rng := rng s0 + 1\<rparr>) = Some (fwd, t')" "same_cursor cpuid s' t'" by blast
  have sz: "splash_size t0 = splash_size s0" "rng t0 = rng s0" using f0 by simp_all
  have "grow_splash g sh cpuid t = bfs_loop g sh [root_vertex]
         (if root_priority > 1 then splash_size t0 else work g root_vertex)
         (fst (seed_neighbors g (sh (rng t0) (in_edge_ids g root_vertex)) {root_vertex} []))
         (snd (seed_neighbors g (sh (rng t0) (in_edge_ids g root_vertex)) {root_vertex} []))
         (t0\<lparr>rng := rng t0 + 1\<rparr>)"
    unfolding grow_splash_def using rooted(1-3) f t0(1) by (simp add: vec_at_def)
  also have "\<dots> = Some (fwd, t')" unfolding sz by (rule t'(1))
  finally show ?thesis using t'(2) by blast
qed

lemma rebuild_splash_cursor:
  assumes "rebuild_splash g sh cpuid s = Some s'" "same_cursor cpuid s t"
  shows "\<exists>t'. rebuild_splash g sh cpuid t = Some t' \<and> same_cursor cpuid s' t'"
proof -
  from rebuild_splash_grow[OF assms(1)] obtain fwd s1 where
    g: "grow_splash g sh cpuid s = Some (fwd, s1)"
    and s': "s' = s1\<lparr>splashes := (splashes s1)[cpuid := reverse_pass fwd]\<rparr>" by blast
  from grow_splash_cursor[OF g assms(2)] obtain t1 where
    t1: "grow_splash g sh cpuid t = Some (fwd, t1)" "same_cursor cpuid s1 t1" by blast
  have "rebuild_splash g sh cpuid t = Some (t1\<lparr>splashes := (splashes s1)[cpuid := reverse_pass fwd]\<rparr>)"
    unfolding rebuild_splash_def using t1(1) same_cursor_fields[OF t1(2)] by simp
  moreover have "same_cursor cpuid s' (t1\<lparr>splashes := (splashes s1)[cpuid := reverse_pass fwd]\<rparr>)"
    unfolding s' using t1(2) by (rule same_cursor_update(3))
  ultimately show ?thesis by blast
qed

lemma take_from_splash_cursor:
  assumes "take_from_splash v cpuid s = Some s'" "same_cursor cpuid s t"
  shows "\<exists>t'. take_from_splash v cpuid t = Some t' \<and> same_cursor cpuid s' t'"
proof -
  note e = take_from_splash_effect[OF assms(1)] and f = same_cursor_fields[OF assms(2)]
  let ?t' = "t\<lparr>splash_index := (splash_index s)[cpuid := splash_index s ! cpuid + 1],
            pqueues := (pqueues s)[vmap s ! v := filter (\<lambda>kp. fst kp \<noteq> v) (pqueues s ! (vmap s ! v))]\<rparr>"
  have "take_from_splash v cpuid t = Some ?t'"
    unfolding take_from_splash_def using e f by (simp add: vec_at_def Let_def pq_remove_def)
  moreover have "same_cursor cpuid s' ?t'"
  proof -
    have "s' = s\<lparr>splash_index := (splash_index s)[cpuid := splash_index s ! cpuid + 1],
            pqueues := (pqueues s)[vmap s ! v := filter (\<lambda>kp. fst kp \<noteq> v) (pqueues s ! (vmap s ! v))]\<rparr>"
      using e by blast
    then show ?thesis using same_cursor_update(1,4) assms(2) by metis
  qed
  ultimately show ?thesis by blast
qed

lemma clear_and_produce_cursor:
  assumes "clear_and_produce v s = Some (task, s')" "same_cursor cpuid s t"
  shows "\<exists>t'. clear_and_produce v t = Some (task, t') \<and> same_cursor cpuid s' t'"
proof -
  note e = clear_and_produce_effect[OF assms(1)] and f = same_cursor_fields[OF assms(2)]
  let ?t' = "t\<lparr>active_set := (active_set s)[v := False],
            monitor := (if active_set s ! v
                        then tell (monitor s) (TaskScheduled (v, update_fun s) 1) else monitor s)\<rparr>"
  have "clear_and_produce v t = Some (task, ?t')"
    unfolding clear_and_produce_def bitset_clear_bit_def using e f by (simp add: Let_def)
  moreover have "same_cursor cpuid s' ?t'"
  proof -
    have "s' = s\<lparr>active_set := (active_set s)[v := False],
            monitor := (if active_set s ! v
                        then tell (monitor s) (TaskScheduled (v, update_fun s) 1) else monitor s)\<rparr>"
      using e by blast
    then show ?thesis using same_cursor_update(5,6) assms(2) by metis
  qed
  ultimately show ?thesis by blast
qed

lemma drain_splash_cursor:
  "drain_splash xs cpuid s = Some (task, s') \<Longrightarrow> same_cursor cpuid s t \<Longrightarrow>
     \<exists>t'. drain_splash xs cpuid t = Some (task, t') \<and> same_cursor cpuid s' t'"
proof (induction xs arbitrary: s t)
  case Nil
  then show ?case by simp
next
  case (Cons v rest)
  from Cons.prems(1) obtain s1 t1 s2 where
    a: "take_from_splash v cpuid s = Some s1" and b: "clear_and_produce v s1 = Some (t1, s2)"
    and c: "(case t1 of Some x \<Rightarrow> Some (Some x, s2) | None \<Rightarrow> drain_splash rest cpuid s2) = Some (task, s')"
    by (auto split: Option.bind_splits)
  from take_from_splash_cursor[OF a Cons.prems(2)] obtain u1 where
    a': "take_from_splash v cpuid t = Some u1" "same_cursor cpuid s1 u1" by blast
  from clear_and_produce_cursor[OF b a'(2)] obtain u2 where
    b': "clear_and_produce v u1 = Some (t1, u2)" "same_cursor cpuid s2 u2" by blast
  show ?case
  proof (cases t1)
    case None
    then have "drain_splash rest cpuid s2 = Some (task, s')" using c by simp
    from Cons.IH[OF this b'(2)] show ?thesis using a'(1) b'(1) None by simp
  next
    case (Some x)
    then show ?thesis using c a'(1) b'(1) b'(2) by auto
  qed
qed


lemma next_task_fold:
  "cpuid < length (splashes s) \<Longrightarrow> aborted s \<Longrightarrow>
     next_task_from_splash g sh cpuid s = Some (WAITING, s)"
  "cpuid < length (splashes s) \<Longrightarrow> \<not> aborted s \<Longrightarrow> depleted cpuid s = Some d \<Longrightarrow>
     (if d then rebuild_splash g sh cpuid s else Some s) = Some s1 \<Longrightarrow>
     depleted cpuid s1 = Some True \<Longrightarrow>
     next_task_from_splash g sh cpuid s = Some (WAITING, s1)"
  "cpuid < length (splashes s) \<Longrightarrow> \<not> aborted s \<Longrightarrow> depleted cpuid s = Some d \<Longrightarrow>
     (if d then rebuild_splash g sh cpuid s else Some s) = Some s1 \<Longrightarrow>
     depleted cpuid s1 = Some False \<Longrightarrow>
     drain_splash (remaining cpuid s1) cpuid s1 = Some (Some task, s2) \<Longrightarrow>
     next_task_from_splash g sh cpuid s = Some (NEWTASK task, s2)"
  "cpuid < length (splashes s) \<Longrightarrow> \<not> aborted s \<Longrightarrow> depleted cpuid s = Some d \<Longrightarrow>
     (if d then rebuild_splash g sh cpuid s else Some s) = Some s1 \<Longrightarrow>
     depleted cpuid s1 = Some False \<Longrightarrow>
     drain_splash (remaining cpuid s1) cpuid s1 = Some (None, s2) \<Longrightarrow>
     next_task_from_splash g sh cpuid s = next_task_from_splash g sh cpuid s2"
  by (subst next_task_from_splash.simps, simp)+

lemma same_cursor_refill:
  assumes "(if d then rebuild_splash g sh cpuid s else Some s) = Some s1" "same_cursor cpuid s t"
  shows "\<exists>t1. (if d then rebuild_splash g sh cpuid t else Some t) = Some t1 \<and> same_cursor cpuid s1 t1"
proof (cases d)
  case True
  then show ?thesis using rebuild_splash_cursor[OF _ assms(2)] assms(1) by simp
next
  case False
  then show ?thesis using assms by simp
qed

lemma same_cursor_buffer:
  "same_cursor cpuid s t \<Longrightarrow> depleted cpuid t = depleted cpuid s \<and> remaining cpuid t = remaining cpuid s"
  using same_cursor_fields[of cpuid s t] unfolding depleted_def remaining_def by simp

lemma next_task_cursor:
  assumes "next_task_from_splash g sh cpuid s = Some (r, s')" "same_cursor cpuid s t"
  shows "\<exists>t'. next_task_from_splash g sh cpuid t = Some (r, t') \<and> same_cursor cpuid s' t'"
proof -
  have "\<forall>t. same_cursor cpuid s t \<longrightarrow>
      (\<exists>t'. next_task_from_splash g sh cpuid t = Some (r, t') \<and> same_cursor cpuid s' t')"
    using assms(1)
  proof (induction rule: next_task_cases)
    case (aborted s)
    show ?case
    proof (intro allI impI)
      fix t assume st: "same_cursor cpuid s t"
      note f = same_cursor_fields[OF st]
      have "next_task_from_splash g sh cpuid t = Some (WAITING, t)"
        using aborted f by (intro next_task_fold(1)) simp_all
      then show "\<exists>t'. next_task_from_splash g sh cpuid t = Some (WAITING, t') \<and> same_cursor cpuid s t'"
        using st by blast
    qed
  next
    case (waiting s d s1)
    show ?case
    proof (intro allI impI)
      fix t assume st: "same_cursor cpuid s t"
      note f = same_cursor_fields[OF st]
      from same_cursor_refill[OF waiting(4) st] obtain t1 where
        t1: "(if d then rebuild_splash g sh cpuid t else Some t) = Some t1" "same_cursor cpuid s1 t1"
        by blast
      have c: "cpuid < length (splashes t)" "\<not> aborted t" using waiting(1,2) f by simp_all
      have d: "depleted cpuid t = Some d" using waiting(3) same_cursor_buffer[OF st] by simp
      have d1: "depleted cpuid t1 = Some True" using waiting(5) same_cursor_buffer[OF t1(2)] by simp
      have "next_task_from_splash g sh cpuid t = Some (WAITING, t1)"
        using c d t1(1) d1 by (rule next_task_fold(2))
      then show "\<exists>t'. next_task_from_splash g sh cpuid t = Some (WAITING, t') \<and> same_cursor cpuid s1 t'"
        using t1(2) by blast
    qed
  next
    case (produced s d s1 task s2)
    show ?case
    proof (intro allI impI)
      fix t assume st: "same_cursor cpuid s t"
      note f = same_cursor_fields[OF st]
      from same_cursor_refill[OF produced(4) st] obtain t1 where
        t1: "(if d then rebuild_splash g sh cpuid t else Some t) = Some t1" "same_cursor cpuid s1 t1"
        by blast
      have c: "cpuid < length (splashes t)" "\<not> aborted t" using produced(1,2) f by simp_all
      have d: "depleted cpuid t = Some d" using produced(3) same_cursor_buffer[OF st] by simp
      have d1: "depleted cpuid t1 = Some False" using produced(5) same_cursor_buffer[OF t1(2)] by simp
      from drain_splash_cursor[OF produced(6) t1(2)] obtain t2 where
        t2: "drain_splash (remaining cpuid t1) cpuid t1 = Some (Some task, t2)" "same_cursor cpuid s2 t2"
        using same_cursor_buffer[OF t1(2)] by auto
      have "next_task_from_splash g sh cpuid t = Some (NEWTASK task, t2)"
        using c d t1(1) d1 t2(1) by (rule next_task_fold(3))
      then show "\<exists>t'. next_task_from_splash g sh cpuid t = Some (NEWTASK task, t') \<and> same_cursor cpuid s2 t'"
        using t2(2) by blast
    qed
  next
    case (again s d s1 s2 r s')
    show ?case
    proof (intro allI impI)
      fix t assume st: "same_cursor cpuid s t"
      note f = same_cursor_fields[OF st]
      from same_cursor_refill[OF again(4) st] obtain t1 where
        t1: "(if d then rebuild_splash g sh cpuid t else Some t) = Some t1" "same_cursor cpuid s1 t1"
        by blast
      have c: "cpuid < length (splashes t)" "\<not> aborted t" using again(1,2) f by simp_all
      have d: "depleted cpuid t = Some d" using again(3) same_cursor_buffer[OF st] by simp
      have d1: "depleted cpuid t1 = Some False" using again(5) same_cursor_buffer[OF t1(2)] by simp
      from drain_splash_cursor[OF again(6) t1(2)] obtain t2 where
        t2: "drain_splash (remaining cpuid t1) cpuid t1 = Some (None, t2)" "same_cursor cpuid s2 t2"
        using same_cursor_buffer[OF t1(2)] by auto
      have "next_task_from_splash g sh cpuid t = next_task_from_splash g sh cpuid t2"
        using c d t1(1) d1 t2(1) by (rule next_task_fold(4))
      then show "\<exists>t'. next_task_from_splash g sh cpuid t = Some (r, t') \<and> same_cursor cpuid s' t'"
        using again(8) t2(2) by simp
    qed
  qed
  then show ?thesis using assms(2) by blast
qed

lemma get_next_task_cursor:
  "get_next_task g sh answers cpuid s = Some (r, s') \<Longrightarrow> same_cursor cpuid s t \<Longrightarrow>
     \<exists>t'. get_next_task g sh answers cpuid t = Some (r, t') \<and> same_cursor cpuid s' t'"
proof (induction answers arbitrary: s t)
  case Nil
  note run = Nil.prems(1) and st = Nil.prems(2)
  from run obtain ret s1 where n1: "next_task_from_splash g sh cpuid s = Some (ret, s1)"
    by (subst (asm) get_next_task.simps) (auto split: option.splits)
  from next_task_cursor[OF n1 st] obtain t1 where
    t1: "next_task_from_splash g sh cpuid t = Some (ret, t1)" "same_cursor cpuid s1 t1" by blast
  show ?case
  proof (cases "ret = WAITING")
    case False
    then have "r = Some ret \<and> s' = s1" using run n1 by (subst (asm) get_next_task.simps) simp
    moreover have "get_next_task g sh [] cpuid t = Some (Some ret, t1)"
      using t1(1) False by (subst get_next_task.simps) simp
    ultimately show ?thesis using t1(2) by blast
  next
    case True
    let ?b = "terminator s1 @ [BeginSleep cpuid]"
    from run n1 True obtain ret2 s2 where
      n2: "next_task_from_splash g sh cpuid (s1\<lparr>terminator := ?b\<rparr>) = Some (ret2, s2)"
      by (subst (asm) get_next_task.simps) (auto split: option.splits)
    have tm: "terminator t1 = terminator s1" using same_cursor_fields[OF t1(2)] by simp
    have "same_cursor cpuid (s1\<lparr>terminator := ?b\<rparr>) (t1\<lparr>terminator := ?b\<rparr>)"
      using t1(2) by (rule same_cursor_update(7))
    from next_task_cursor[OF n2 this] obtain t2 where
      t2: "next_task_from_splash g sh cpuid (t1\<lparr>terminator := ?b\<rparr>) = Some (ret2, t2)"
        "same_cursor cpuid s2 t2" by blast
    have tm2: "terminator t2 = terminator s2" using same_cursor_fields[OF t2(2)] by simp
    show ?thesis
    proof (cases "ret2 = WAITING")
      case False
      then have "r = Some ret2 \<and> s' = s2\<lparr>terminator := terminator s2 @ [CancelSleep cpuid]\<rparr>"
        using run n1 True n2 by (subst (asm) get_next_task.simps) simp
      moreover have "get_next_task g sh [] cpuid t
          = Some (Some ret2, t2\<lparr>terminator := terminator s2 @ [CancelSleep cpuid]\<rparr>)"
        using t1(1) True t2(1) False tm tm2 by (subst get_next_task.simps) simp
      moreover have "same_cursor cpuid (s2\<lparr>terminator := terminator s2 @ [CancelSleep cpuid]\<rparr>)
          (t2\<lparr>terminator := terminator s2 @ [CancelSleep cpuid]\<rparr>)"
        using t2(2) by (rule same_cursor_update(7))
      ultimately show ?thesis by blast
    next
      case w2: True
      then have "r = None \<and> s' = s2\<lparr>terminator := terminator s2 @ [EndSleep cpuid]\<rparr>"
        using run n1 True n2 by (subst (asm) get_next_task.simps) simp
      moreover have "get_next_task g sh [] cpuid t
          = Some (None, t2\<lparr>terminator := terminator s2 @ [EndSleep cpuid]\<rparr>)"
        using t1(1) True t2(1) w2 tm tm2 by (subst get_next_task.simps) simp
      moreover have "same_cursor cpuid (s2\<lparr>terminator := terminator s2 @ [EndSleep cpuid]\<rparr>)
          (t2\<lparr>terminator := terminator s2 @ [EndSleep cpuid]\<rparr>)"
        using t2(2) by (rule same_cursor_update(7))
      ultimately show ?thesis by blast
    qed
  qed
next
  case (Cons a answers)
  note run = Cons.prems(1) and st = Cons.prems(2)
  from run obtain ret s1 where n1: "next_task_from_splash g sh cpuid s = Some (ret, s1)"
    by (subst (asm) get_next_task.simps) (auto split: option.splits)
  from next_task_cursor[OF n1 st] obtain t1 where
    t1: "next_task_from_splash g sh cpuid t = Some (ret, t1)" "same_cursor cpuid s1 t1" by blast
  show ?case
  proof (cases "ret = WAITING")
    case False
    then have "r = Some ret \<and> s' = s1" using run n1 by (subst (asm) get_next_task.simps) simp
    moreover have "get_next_task g sh (a # answers) cpuid t = Some (Some ret, t1)"
      using t1(1) False by (subst get_next_task.simps) simp
    ultimately show ?thesis using t1(2) by blast
  next
    case True
    let ?b = "terminator s1 @ [BeginSleep cpuid]"
    from run n1 True obtain ret2 s2 where
      n2: "next_task_from_splash g sh cpuid (s1\<lparr>terminator := ?b\<rparr>) = Some (ret2, s2)"
      by (subst (asm) get_next_task.simps) (auto split: option.splits)
    have tm: "terminator t1 = terminator s1" using same_cursor_fields[OF t1(2)] by simp
    have "same_cursor cpuid (s1\<lparr>terminator := ?b\<rparr>) (t1\<lparr>terminator := ?b\<rparr>)"
      using t1(2) by (rule same_cursor_update(7))
    from next_task_cursor[OF n2 this] obtain t2 where
      t2: "next_task_from_splash g sh cpuid (t1\<lparr>terminator := ?b\<rparr>) = Some (ret2, t2)"
        "same_cursor cpuid s2 t2" by blast
    have tm2: "terminator t2 = terminator s2" using same_cursor_fields[OF t2(2)] by simp
    show ?thesis
    proof (cases "ret2 = WAITING")
      case False
      then have "r = Some ret2 \<and> s' = s2\<lparr>terminator := terminator s2 @ [CancelSleep cpuid]\<rparr>"
        using run n1 True n2 by (subst (asm) get_next_task.simps) simp
      moreover have "get_next_task g sh (a # answers) cpuid t
          = Some (Some ret2, t2\<lparr>terminator := terminator s2 @ [CancelSleep cpuid]\<rparr>)"
        using t1(1) True t2(1) False tm tm2 by (subst get_next_task.simps) simp
      moreover have "same_cursor cpuid (s2\<lparr>terminator := terminator s2 @ [CancelSleep cpuid]\<rparr>)
          (t2\<lparr>terminator := terminator s2 @ [CancelSleep cpuid]\<rparr>)"
        using t2(2) by (rule same_cursor_update(7))
      ultimately show ?thesis by blast
    next
      case w2: True
      have e: "same_cursor cpuid (s2\<lparr>terminator := terminator s2 @ [EndSleep cpuid]\<rparr>)
          (t2\<lparr>terminator := terminator s2 @ [EndSleep cpuid]\<rparr>)"
        using t2(2) by (rule same_cursor_update(7))
      show ?thesis
      proof (cases a)
        case True
        then have "r = Some COMPLETE \<and> s' = s2\<lparr>terminator := terminator s2 @ [EndSleep cpuid]\<rparr>"
          using run n1 \<open>ret = WAITING\<close> n2 w2 by (subst (asm) get_next_task.simps) simp
        moreover have "get_next_task g sh (a # answers) cpuid t
            = Some (Some COMPLETE, t2\<lparr>terminator := terminator s2 @ [EndSleep cpuid]\<rparr>)"
          using t1(1) \<open>ret = WAITING\<close> t2(1) w2 tm tm2 True by (subst get_next_task.simps) simp
        ultimately show ?thesis using e by blast
      next
        case False
        then have "get_next_task g sh answers cpuid (s2\<lparr>terminator := terminator s2 @ [EndSleep cpuid]\<rparr>)
            = Some (r, s')"
          using run n1 \<open>ret = WAITING\<close> n2 w2 by (subst (asm) get_next_task.simps) simp
        from Cons.IH[OF this e] obtain t' where
          t': "get_next_task g sh answers cpuid (t2\<lparr>terminator := terminator s2 @ [EndSleep cpuid]\<rparr>)
            = Some (r, t')" "same_cursor cpuid s' t'" by blast
        have "get_next_task g sh (a # answers) cpuid t = Some (r, t')"
          using t1(1) \<open>ret = WAITING\<close> t2(1) w2 tm tm2 False t'(1) by (subst get_next_task.simps) simp
        then show ?thesis using t'(2) by blast
      qed
    qed
  qed
qed

lemma run_cursor:
  "run g sh (replicate m (GetNextTask cpuid answers)) s = Some (rs, s') \<Longrightarrow> same_cursor cpuid s t \<Longrightarrow>
     \<exists>t'. run g sh (replicate m (GetNextTask cpuid answers)) t = Some (rs, t') \<and> same_cursor cpuid s' t'"
proof (induction m arbitrary: s t rs)
  case 0
  then show ?case by simp
next
  case (Suc m)
  from Suc.prems(1) obtain r s1 rs1 where
    e: "get_next_task g sh answers cpuid s = Some (r, s1)"
    and r: "run g sh (replicate m (GetNextTask cpuid answers)) s1 = Some (rs1, s')"
    and rs: "rs = r # rs1"
    by (auto split: option.splits)
  from get_next_task_cursor[OF e Suc.prems(2)] obtain t1 where
    t1: "get_next_task g sh answers cpuid t = Some (r, t1)" "same_cursor cpuid s1 t1" by blast
  from Suc.IH[OF r t1(2)] obtain t' where
    t': "run g sh (replicate m (GetNextTask cpuid answers)) t1 = Some (rs1, t')" "same_cursor cpuid s' t'"
    by blast
  show ?case using t1(1) t' rs by simp
qed

lemma poll_cursor:
  "poll g sh cpuid s = Some (tasks, s') \<Longrightarrow> same_cursor cpuid s t \<Longrightarrow>
     \<exists>t'. poll g sh cpuid t = Some (tasks, t') \<and> same_cursor cpuid s' t'"
proof (induction g sh cpuid s arbitrary: tasks t rule: poll.induct)
  case (1 g sh cpuid s)
  from "1.prems"(1) obtain r s1 where gn: "get_next_task g sh [True] cpuid s = Some (r, s1)"
    by (subst (asm) poll.simps) (auto split: option.splits)
  from get_next_task_cursor[OF gn "1.prems"(2)] obtain t1 where
    t1: "get_next_task g sh [True] cpuid t = Some (r, t1)" "same_cursor cpuid s1 t1" by blast
  show ?case
  proof (cases "\<exists>task. r = Some (NEWTASK task)")
    case True
    then obtain task where r: "r = Some (NEWTASK task)" by blast
    from "1.prems"(1) gn r obtain rest where
      rest: "poll g sh cpuid s1 = Some (rest, s')" "tasks = task # rest"
      by (subst (asm) poll.simps) (auto split: option.splits)
    from "1.IH"[OF gn[unfolded r] refl refl refl rest(1) t1(2)] obtain t' where
      t': "poll g sh cpuid t1 = Some (rest, t')" "same_cursor cpuid s' t'" by blast
    have "poll g sh cpuid t = Some (tasks, t')"
      using t1(1) r t'(1) rest(2) by (subst poll.simps) simp
    then show ?thesis using t'(2) by blast
  next
    case False
    then have "tasks = [] \<and> s' = s1"
      using "1.prems"(1) gn by (subst (asm) poll.simps) (auto split: option.splits sched_status.splits)
    moreover have "poll g sh cpuid t = Some ([], t1)"
      using t1(1) False by (subst poll.simps) (auto split: option.splits sched_status.splits)
    ultimately show ?thesis using t1(2) by blast
  qed
qed

lemma add_task_lastqid:
  "add_task g task priority (s\<lparr>lastqid := l\<rparr>)
     = map_option (\<lambda>s'. s'\<lparr>lastqid := l\<rparr>) (add_task g task priority s)"
  unfolding add_task_def
  by (auto simp: Let_def vec_at_def bitset_set_bit_def split: Option.bind_splits if_splits)

lemma add_tasks_lastqid:
  "add_tasks g vs func priority (s\<lparr>lastqid := l\<rparr>)
     = map_option (\<lambda>s'. s'\<lparr>lastqid := l\<rparr>) (add_tasks g vs func priority s)"
proof (induction vs arbitrary: s)
  case Nil
  then show ?case by simp
next
  case (Cons v vs)
  show ?case
    by (cases "add_task g (v, func) priority s") (simp_all add: add_task_lastqid Cons.IH)
qed

lemma add_task_to_all_lastqid:
  "add_task_to_all g func priority (s\<lparr>lastqid := l\<rparr>)
     = map_option (\<lambda>s'. s'\<lparr>lastqid := l\<rparr>) (add_task_to_all g func priority s)"
proof -
  have e: "s\<lparr>lastqid := l, update_fun := func\<rparr> = s\<lparr>update_fun := func\<rparr>\<lparr>lastqid := l\<rparr>" by simp
  show ?thesis unfolding add_task_to_all_def e by (rule add_tasks_lastqid)
qed

lemma run_no_choice:
  "(\<forall>k v. sh k (in_edge_ids g v) = in_edge_ids g v) \<Longrightarrow>
     run g sh (replicate m (GetNextTask cpuid answers)) s
       = run g no_shuffle (replicate m (GetNextTask cpuid answers)) s"
proof (induction m arbitrary: s)
  case 0
  then show ?case by simp
next
  case (Suc m)
  show ?case
    by (simp add: get_next_task_no_choice[OF Suc.prems] Suc.IH[OF Suc.prems]
          split: option.splits)
qed

section \<open>The chain of five vertices\<close>

text \<open>
  C3 as stated fails.  The search of \<open>rebuild_splash\<close> follows in-edges, from a vertex to
  the sources of the edges that enter it.  In the first scheduler of a process the static
  array of \<open>get_top\<close> is zero, so on the chain with the edges \<open>i \<rightarrow> i + 1\<close> the first
  root is vertex 0, the top of the first shard that \<open>get_top\<close> probes, and no edge enters
  vertex 0: the first splash is vertex 0 alone and the buffer has one element, not nine.
\<close>
theorem chain5_first_splash_is_root_alone:
  "splash_scheduler chain5 1 (replicate 128 0) = Some (fresh 5) \<and>
   add_task_to_all chain5 7 1 (fresh 5) = Some submitted5 \<and>
   splash_size submitted5 = 100 \<and> ncpus submitted5 = 1 \<and>
   in_edge_ids chain5 0 = [] \<and>
   grow_splash chain5 no_shuffle 0 submitted5
     = Some ([0], submitted5\<lparr>pqueues := [[], [(1, 1)], [(2, 1)], [(3, 1)], [(4, 1)]],
                              lastqid := (replicate 128 0)[0 := 1], rng := 1\<rparr>) \<and>
   rebuild_splash chain5 no_shuffle 0 submitted5
     = Some (submitted5\<lparr>pqueues := [[], [(1, 1)], [(2, 1)], [(3, 1)], [(4, 1)]],
                         splashes := [[0]], lastqid := (replicate 128 0)[0 := 1], rng := 1\<rparr>) \<and>
   length (splashes (submitted5\<lparr>pqueues := [[], [(1, 1)], [(2, 1)], [(3, 1)], [(4, 1)]],
                         splashes := [[0]], lastqid := (replicate 128 0)[0 := 1], rng := 1\<rparr>) ! 0) = 1"
  by code_simp

text \<open>
  All five vertices of the chain submitted, in a process whose static array of \<open>get_top\<close> holds
  \<open>k\<close> for worker 0 and zero for the other workers.
\<close>
definition submitted5_at :: "nat \<Rightarrow> scheduler" where
  "submitted5_at k = submitted5\<lparr>lastqid := (replicate 128 0)[0 := k]\<rparr>"

lemma chain5_at:
  "\<forall>k \<in> set [0 ..< 6].
     map_option fst (grow_splash chain5 no_shuffle 0 (submitted5_at k)) = Some (rev [0 ..< Suc (k mod 5)]) \<and>
     map_option (\<lambda>s1. (splashes s1 ! 0, splash_index s1 ! 0))
         (rebuild_splash chain5 no_shuffle 0 (submitted5_at k))
       = Some ([0 ..< k mod 5] @ rev [0 ..< Suc (k mod 5)], 0) \<and>
     (\<forall>i \<in> set [0 ..< 5].
        map_option (\<lambda>(rs, s'). (rs, splashes s' ! 0))
            (run chain5 no_shuffle (replicate (Suc i) (GetNextTask 0 [])) (submitted5_at k))
          = Some (map (\<lambda>j. Some (NEWTASK (j, 7))) [0 ..< Suc i],
                  if i \<le> k mod 5 then [0 ..< k mod 5] @ rev [0 ..< Suc (k mod 5)] else [i])) \<and>
     map_option (\<lambda>(tasks, s'). (tasks, active_set s', pqueues s'))
         (poll chain5 no_shuffle 0 (submitted5_at k))
       = Some (map (\<lambda>j. (j, 7)) [0 ..< 5], replicate 5 False, replicate 5 [])"
  by code_simp

lemma submitted5_same_cursor:
  assumes "length statics = 128" "statics ! 0 = k"
  shows "same_cursor 0 (submitted5_at k) (submitted5\<lparr>lastqid := statics\<rparr>)"
proof -
  have "submitted5\<lparr>lastqid := statics\<rparr> = (submitted5_at k)\<lparr>lastqid := statics\<rparr>"
    unfolding submitted5_at_def by simp
  moreover have "same_cursor 0 (submitted5_at k) ((submitted5_at k)\<lparr>lastqid := statics\<rparr>)"
    by (rule same_cursorI) (simp_all add: assms submitted5_at_def)
  ultimately show ?thesis by simp
qed

text \<open>
  C3 as the code has it, for every shuffle and every content of the static array.  On the
  chain with the edges \<open>i \<rightarrow> i + 1\<close>, after \<open>add_task_to_all\<close> with priority 1, splash size 100
  and one worker, the first splash depends on the place \<open>k\<close> of worker 0 in the static array
  of \<open>get_top\<close> (zero in the first scheduler of a process, at most 5 once \<open>get_top\<close> has
  written it): the root is vertex \<open>r = k mod 5\<close>, the search follows the in-edges, the forward
  order is \<open>r, r - 1, ..., 0\<close> and the buffer is the palindrome \<open>0, ..., r, ..., 0\<close> of
  \<open>2 r + 1\<close> elements.  The calls of \<open>get_next_task\<close> hand out each of the five vertices once,
  in the order 0, 1, 2, 3, 4: the vertices up to \<open>r\<close> from the first splash and every later
  vertex \<open>i\<close> from the splash \<open>[i]\<close> of its own; then the scheduler reports completion with
  all queues empty and all bits clear.
\<close>
theorem chain5_scenario:
  assumes "shuffles sh" "length statics = 128" "statics ! 0 = k" "k \<le> 5"
  shows "splash_scheduler chain5 1 statics = Some ((fresh 5)\<lparr>lastqid := statics\<rparr>) \<and>
    add_task_to_all chain5 7 1 ((fresh 5)\<lparr>lastqid := statics\<rparr>) = Some (submitted5\<lparr>lastqid := statics\<rparr>) \<and>
    splash_size (submitted5\<lparr>lastqid := statics\<rparr>) = 100 \<and> ncpus (submitted5\<lparr>lastqid := statics\<rparr>) = 1 \<and>
    (\<exists>s1. grow_splash chain5 sh 0 (submitted5\<lparr>lastqid := statics\<rparr>) = Some (rev [0 ..< Suc (k mod 5)], s1)) \<and>
    (\<exists>s1. rebuild_splash chain5 sh 0 (submitted5\<lparr>lastqid := statics\<rparr>) = Some s1 \<and>
          splashes s1 ! 0 = [0 ..< k mod 5] @ rev [0 ..< Suc (k mod 5)] \<and> splash_index s1 ! 0 = 0) \<and>
    (\<forall>i < 5. \<exists>s'. run chain5 sh (replicate (Suc i) (GetNextTask 0 [])) (submitted5\<lparr>lastqid := statics\<rparr>)
                     = Some (map (\<lambda>j. Some (NEWTASK (j, 7))) [0 ..< Suc i], s') \<and>
                   splashes s' ! 0 = (if i \<le> k mod 5 then [0 ..< k mod 5] @ rev [0 ..< Suc (k mod 5)]
                                      else [i])) \<and>
    (\<exists>s'. poll chain5 sh 0 (submitted5\<lparr>lastqid := statics\<rparr>) = Some (map (\<lambda>j. (j, 7)) [0 ..< 5], s') \<and>
          active_set s' = replicate 5 False \<and> pqueues s' = replicate 5 [])"
proof -
  let ?S = "submitted5\<lparr>lastqid := statics\<rparr>"
  have f: "\<forall>k v. sh k (in_edge_ids chain5 v) = in_edge_ids chain5 v"
    using shuffles_short[OF assms(1) chain5_in_edges] by blast
  note sc = submitted5_same_cursor[OF assms(2,3)]
  have k: "k \<in> set [0 ..< 6]" using assms(4) by simp
  note at = chain5_at[rule_format, OF k]
  have c0: "splash_scheduler chain5 1 statics = Some ((fresh 5)\<lparr>lastqid := statics\<rparr>)"
  proof -
    have "splash_scheduler chain5 1 (replicate 128 0) = Some (fresh 5)" by code_simp
    then show ?thesis unfolding splash_scheduler_def fresh_def by (simp split: if_splits)
  qed
  have a0: "add_task_to_all chain5 7 1 ((fresh 5)\<lparr>lastqid := statics\<rparr>) = Some ?S"
  proof -
    have "add_task_to_all chain5 7 1 (fresh 5) = Some submitted5" by code_simp
    then show ?thesis unfolding add_task_to_all_lastqid by simp
  qed
  have z: "splash_size ?S = 100" "ncpus ?S = 1" unfolding submitted5_def fresh_def by simp_all
  have g: "\<exists>s1. grow_splash chain5 sh 0 ?S = Some (rev [0 ..< Suc (k mod 5)], s1)"
  proof -
    from at obtain s1 where
      "grow_splash chain5 no_shuffle 0 (submitted5_at k) = Some (rev [0 ..< Suc (k mod 5)], s1)"
      by (cases "grow_splash chain5 no_shuffle 0 (submitted5_at k)") auto
    then have "grow_splash chain5 sh 0 (submitted5_at k) = Some (rev [0 ..< Suc (k mod 5)], s1)"
      unfolding grow_splash_no_choice[OF f] .
    from grow_splash_cursor[OF this sc] show ?thesis by blast
  qed
  have b: "\<exists>s1. rebuild_splash chain5 sh 0 ?S = Some s1 \<and>
          splashes s1 ! 0 = [0 ..< k mod 5] @ rev [0 ..< Suc (k mod 5)] \<and> splash_index s1 ! 0 = 0"
  proof -
    from at obtain s1 where s1: "rebuild_splash chain5 no_shuffle 0 (submitted5_at k) = Some s1"
      "splashes s1 ! 0 = [0 ..< k mod 5] @ rev [0 ..< Suc (k mod 5)]" "splash_index s1 ! 0 = 0"
      by (cases "rebuild_splash chain5 no_shuffle 0 (submitted5_at k)") auto
    from s1(1) have "rebuild_splash chain5 sh 0 (submitted5_at k) = Some s1"
      unfolding rebuild_splash_no_choice[OF f] .
    from rebuild_splash_cursor[OF this sc] obtain t1 where
      t1: "rebuild_splash chain5 sh 0 ?S = Some t1" "same_cursor 0 s1 t1" by blast
    show ?thesis using t1(1) same_cursor_fields[OF t1(2)] s1(2,3) by simp
  qed
  have r: "\<forall>i < 5. \<exists>s'. run chain5 sh (replicate (Suc i) (GetNextTask 0 [])) ?S
                     = Some (map (\<lambda>j. Some (NEWTASK (j, 7))) [0 ..< Suc i], s') \<and>
                   splashes s' ! 0 = (if i \<le> k mod 5 then [0 ..< k mod 5] @ rev [0 ..< Suc (k mod 5)]
                                      else [i])"
  proof (intro allI impI)
    fix i :: nat assume "i < 5"
    then have i: "i \<in> set [0 ..< 5]" by simp
    from at have "map_option (\<lambda>(rs, s'). (rs, splashes s' ! 0))
            (run chain5 no_shuffle (replicate (Suc i) (GetNextTask 0 [])) (submitted5_at k))
          = Some (map (\<lambda>j. Some (NEWTASK (j, 7))) [0 ..< Suc i],
                  if i \<le> k mod 5 then [0 ..< k mod 5] @ rev [0 ..< Suc (k mod 5)] else [i])"
      using i by blast
    then obtain s' where s': "run chain5 no_shuffle (replicate (Suc i) (GetNextTask 0 [])) (submitted5_at k)
          = Some (map (\<lambda>j. Some (NEWTASK (j, 7))) [0 ..< Suc i], s')"
      "splashes s' ! 0 = (if i \<le> k mod 5 then [0 ..< k mod 5] @ rev [0 ..< Suc (k mod 5)] else [i])"
      by (cases "run chain5 no_shuffle (replicate (Suc i) (GetNextTask 0 [])) (submitted5_at k)") auto
    from s'(1) have "run chain5 sh (replicate (Suc i) (GetNextTask 0 [])) (submitted5_at k)
          = Some (map (\<lambda>j. Some (NEWTASK (j, 7))) [0 ..< Suc i], s')"
      unfolding run_no_choice[OF f] .
    from run_cursor[OF this sc] obtain t' where
      t': "run chain5 sh (replicate (Suc i) (GetNextTask 0 [])) ?S
          = Some (map (\<lambda>j. Some (NEWTASK (j, 7))) [0 ..< Suc i], t')" "same_cursor 0 s' t'" by blast
    show "\<exists>s'. run chain5 sh (replicate (Suc i) (GetNextTask 0 [])) ?S
                     = Some (map (\<lambda>j. Some (NEWTASK (j, 7))) [0 ..< Suc i], s') \<and>
                   splashes s' ! 0 = (if i \<le> k mod 5 then [0 ..< k mod 5] @ rev [0 ..< Suc (k mod 5)]
                                      else [i])"
      using t'(1) same_cursor_fields[OF t'(2)] s'(2) by simp
  qed
  have p: "\<exists>s'. poll chain5 sh 0 ?S = Some (map (\<lambda>j. (j, 7)) [0 ..< 5], s') \<and>
          active_set s' = replicate 5 False \<and> pqueues s' = replicate 5 []"
  proof -
    from at obtain s' where s': "poll chain5 no_shuffle 0 (submitted5_at k) = Some (map (\<lambda>j. (j, 7)) [0 ..< 5], s')"
      "active_set s' = replicate 5 False" "pqueues s' = replicate 5 []"
      by (cases "poll chain5 no_shuffle 0 (submitted5_at k)") auto
    from s'(1) have "poll chain5 sh 0 (submitted5_at k) = Some (map (\<lambda>j. (j, 7)) [0 ..< 5], s')"
      unfolding poll_no_choice[OF f] .
    from poll_cursor[OF this sc] obtain t' where
      t': "poll chain5 sh 0 ?S = Some (map (\<lambda>j. (j, 7)) [0 ..< 5], t')" "same_cursor 0 s' t'" by blast
    show ?thesis using t'(1) same_cursor_fields[OF t'(2)] s'(2,3) by simp
  qed
  show ?thesis using c0 a0 z g b r p by blast
qed

theorem chain5_scenario_witness:
  "shuffles no_shuffle \<and> length ((replicate 128 0)[0 := 4]) = 128 \<and>
   (replicate 128 0)[0 := 4] ! 0 = (4 :: nat) \<and> (4 :: nat) \<le> 5 \<and> (1 :: nat) < 5 \<and>
   (\<exists>s1. rebuild_splash chain5 no_shuffle 0 (submitted5\<lparr>lastqid := (replicate 128 0)[0 := 4]\<rparr>) = Some s1 \<and>
         splashes s1 ! 0 = [0, 1, 2, 3, 4, 3, 2, 1, 0]) \<and>
   (\<exists>s'. run chain5 no_shuffle [GetNextTask 0 [], GetNextTask 0 []]
            (submitted5\<lparr>lastqid := (replicate 128 0)[0 := 4]\<rparr>)
          = Some ([Some (NEWTASK (0, 7)), Some (NEWTASK (1, 7))], s') \<and>
         splashes s' ! 0 = [0, 1, 2, 3, 4, 3, 2, 1, 0])"
proof -
  have s: "shuffles no_shuffle" by (simp add: shuffles_def no_shuffle_def)
  have l: "length ((replicate 128 0)[0 := 4 :: nat]) = 128" "(replicate 128 0)[0 := 4] ! 0 = (4 :: nat)"
    "(4 :: nat) \<le> 5" by simp_all
  have e: "[0 ..< 4 mod 5] @ rev [0 ..< Suc (4 mod 5)] = [0, 1, 2, 3, 4, 3, 2, 1, 0 :: nat]"
    "replicate (Suc 1) (GetNextTask 0 []) = [GetNextTask 0 [], GetNextTask 0 []]"
    "map (\<lambda>j. Some (NEWTASK (j, 7 :: nat))) [0 ..< Suc 1] = [Some (NEWTASK (0, 7)), Some (NEWTASK (1, 7))]"
    "(1 :: nat) \<le> 4 mod 5"
    by code_simp+
  have one: "(1 :: nat) < 5" by simp
  note t = chain5_scenario[OF s l]
  have "\<exists>s1. rebuild_splash chain5 no_shuffle 0 (submitted5\<lparr>lastqid := (replicate 128 0)[0 := 4]\<rparr>) = Some s1 \<and>
         splashes s1 ! 0 = [0, 1, 2, 3, 4, 3, 2, 1, 0]"
    using t unfolding e by blast
  moreover have "\<exists>s'. run chain5 no_shuffle (replicate (Suc 1) (GetNextTask 0 []))
            (submitted5\<lparr>lastqid := (replicate 128 0)[0 := 4]\<rparr>)
          = Some (map (\<lambda>j. Some (NEWTASK (j, 7))) [0 ..< Suc 1], s') \<and>
         splashes s' ! 0 = (if (1 :: nat) \<le> 4 mod 5 then [0 ..< 4 mod 5] @ rev [0 ..< Suc (4 mod 5)] else [1])"
  proof -
    from t have "\<forall>i < 5. \<exists>s'. run chain5 no_shuffle (replicate (Suc i) (GetNextTask 0 []))
            (submitted5\<lparr>lastqid := (replicate 128 0)[0 := 4]\<rparr>)
          = Some (map (\<lambda>j. Some (NEWTASK (j, 7))) [0 ..< Suc i], s') \<and>
         splashes s' ! 0 = (if i \<le> 4 mod 5 then [0 ..< 4 mod 5] @ rev [0 ..< Suc (4 mod 5)] else [i])"
      by blast
    from this[rule_format, OF one] show ?thesis .
  qed
  ultimately show ?thesis using s l one unfolding e by simp
qed

section \<open>A worker that polls hands out what its shards hold\<close>















section \<open>A vertex stays held until it is handed out\<close>


















section \<open>Abort and restart\<close>








end
